theory Spec2Isabelle
  imports Main
begin

section \<open>Registers, usage records and the analysis tables\<close>

text \<open>
  The allocator of \<^verbatim>\<open>reg_alloc.c\<close> is one C function, \<^verbatim>\<open>doRegisterAllocation\<close>.
  Its stages are embedded below as functions over explicit tables. The C type
  \<^verbatim>\<open>Int\<close> is modelled as \<open>int\<close>: every index the function computes is
  bounded by \<^verbatim>\<open>n_instrs\<close>, \<^verbatim>\<open>n_vregs\<close> or \<^verbatim>\<open>N_SPILL64S\<close>, so no
  arithmetic of the function wraps.
\<close>

text \<open>
  Modelled from the spec: the register classes; the type is not declared in
  \<^verbatim>\<open>reg_alloc.c\<close>.
\<close>

datatype HRegClass = HRcInt | HRcFloat | HRcVector

text \<open>
  Modelled from the spec: the register handle \<^verbatim>\<open>HReg\<close> and its accessors
  \<^verbatim>\<open>hregIsVirtual\<close>, \<^verbatim>\<open>hregClass\<close> and \<^verbatim>\<open>hregNumber\<close> are not declared in
  \<^verbatim>\<open>reg_alloc.c\<close>. A handle carries its virtuality, its class and its index, and
  two handles are equal iff all three agree. The source also uses the handles
  \<^verbatim>\<open>(HReg)(-1)\<close> and \<^verbatim>\<open>INVALID_HREG\<close>; both are the one distinguished handle
  \<open>INVALID_HREG\<close> here, on which the accessors are left unspecified.
\<close>

datatype HReg =
    HReg (hregIsVirtual: bool) (hregClass: HRegClass) (hregNumber: int)
  | INVALID_HREG

text \<open>
  Modelled from the spec: the usage modes \<^verbatim>\<open>HRmRead\<close>, \<^verbatim>\<open>HRmWrite\<close> and
  \<^verbatim>\<open>HRmModify\<close>; the enumeration is not declared in \<^verbatim>\<open>reg_alloc.c\<close>. With
  exactly these three modes the \<^verbatim>\<open>default\<close> branches of the two mode switches
  (the panics \<^verbatim>\<open>doRegisterAllocation(1)\<close> and \<^verbatim>\<open>(2)\<close>) cannot be reached.
\<close>

datatype HRegMode = HRmRead | HRmWrite | HRmModify

text \<open>
  \<^verbatim>\<open>HRegUsage\<close> holds \<^verbatim>\<open>n_used\<close> pairs \<^verbatim>\<open>(hreg[ih], mode[ih])\<close>; the list keeps
  their order.
\<close>

type_synonym HRegUsage = "(HReg \<times> HRegMode) list"

record VRegInfo =
  live_after :: int
  dead_before :: int
  spill_offset :: int
  spill_size :: int
  has_preference :: bool
  preferred_rreg :: HReg

text \<open>
  The fields of \<^verbatim>\<open>RRegInfo\<close> and \<^verbatim>\<open>RRegState\<close> carry a prefix where their
  C names are those of \<^verbatim>\<open>VRegInfo\<close> fields or of each other.
\<close>

record RRegInfo =
  ri_rreg :: HReg
  ri_live_after :: int
  ri_dead_before :: int

datatype Disp = Free | Unavail | Bound

record RRegState =
  rs_rreg :: HReg
  disp :: Disp
  vreg :: HReg

text \<open>
  Every \<^verbatim>\<open>panic\<close> and every failing \<^verbatim>\<open>assert\<close> of the function is an error
  value. \<open>UndefinedBehaviour\<close> stands for an array access of the source at an
  index outside the array.
\<close>

datatype error =
    AssertVregRange
  | PanicVregFirstRead
  | PanicVregFirstModify
  | AssertNoRealRegs
  | PanicRregFirstRead
  | PanicRregFirstModify
  | PanicRregInfoFull1
  | PanicRregInfoFull2
  | PanicSpillTooLow
  | AssertSanity1
  | AssertSanity2
  | AssertSanity3
  | AssertSanity4
  | AssertBoundVregRange
  | UndefinedBehaviour

section \<open>Stage 1: vreg live ranges\<close>

definition vreg_info_init :: "int \<Rightarrow> VRegInfo list" where
  "vreg_info_init n_vregs =
     replicate (nat n_vregs)
       \<lparr> live_after = - 1, dead_before = - 1, spill_offset = 0, spill_size = 0,
         has_preference = False, preferred_rreg = INVALID_HREG \<rparr>"

text \<open>The body of the inner loop: one mention \<^verbatim>\<open>(hreg[ih], mode[ih])\<close> at instruction \<open>ii\<close>.\<close>

fun stage1_mention :: "int \<Rightarrow> int \<Rightarrow> VRegInfo list \<Rightarrow> HReg \<times> HRegMode \<Rightarrow> error + VRegInfo list" where
  "stage1_mention n_vregs ii vreg_info (h, m) =
     (if \<not> hregIsVirtual h then Inr vreg_info
      else
        let iv = hregNumber h in
        if \<not> (0 \<le> iv \<and> iv < n_vregs) then Inl AssertVregRange
        else
          let v = vreg_info ! nat iv in
          (case m of
             HRmRead \<Rightarrow>
               if live_after v = - 1 then Inl PanicVregFirstRead
               else Inr (vreg_info[nat iv := v\<lparr>dead_before := ii\<rparr>])
           | HRmWrite \<Rightarrow>
               Inr (vreg_info[nat iv :=
                      v\<lparr>live_after := (if live_after v = - 1 then ii else live_after v),
                        dead_before := ii + 1\<rparr>])
           | HRmModify \<Rightarrow>
               if live_after v = - 1 then Inl PanicVregFirstModify
               else Inr (vreg_info[nat iv := v\<lparr>dead_before := ii + 1\<rparr>])))"

text \<open>The inner loop over the mentions of one instruction, in the order of the usage record.\<close>

fun stage1_insn :: "int \<Rightarrow> int \<Rightarrow> VRegInfo list \<Rightarrow> HRegUsage \<Rightarrow> error + VRegInfo list" where
  "stage1_insn n_vregs ii vreg_info [] = Inr vreg_info"
| "stage1_insn n_vregs ii vreg_info (hm # u) =
     (case stage1_mention n_vregs ii vreg_info hm of
        Inl e \<Rightarrow> Inl e
      | Inr vreg_info' \<Rightarrow> stage1_insn n_vregs ii vreg_info' u)"

text \<open>The outer loop: the instructions from index \<open>ii\<close> on.\<close>

fun stage1_loop ::
  "('i \<Rightarrow> HRegUsage) \<Rightarrow> int \<Rightarrow> int \<Rightarrow> VRegInfo list \<Rightarrow> 'i list \<Rightarrow> error + VRegInfo list" where
  "stage1_loop getRegUsage n_vregs ii vreg_info [] = Inr vreg_info"
| "stage1_loop getRegUsage n_vregs ii vreg_info (instr # instrs) =
     (case stage1_insn n_vregs ii vreg_info (getRegUsage instr) of
        Inl e \<Rightarrow> Inl e
      | Inr vreg_info' \<Rightarrow> stage1_loop getRegUsage n_vregs (ii + 1) vreg_info' instrs)"

definition stage1 :: "('i \<Rightarrow> HRegUsage) \<Rightarrow> 'i list \<Rightarrow> int \<Rightarrow> error + VRegInfo list" where
  "stage1 getRegUsage instrs n_vregs =
     stage1_loop getRegUsage n_vregs 0 (vreg_info_init n_vregs) instrs"

section \<open>Stage 2: rreg live ranges\<close>

text \<open>
  Modelled from the spec: \<^verbatim>\<open>hregToIndex\<close> is called by \<^verbatim>\<open>reg_alloc.c\<close> and not
  defined there. It gives the position of a handle in \<^verbatim>\<open>available_real_regs\<close>,
  and \<open>- 1\<close> for a handle that is not one of the allocatable registers.
\<close>

fun hregToIndex :: "HReg \<Rightarrow> HReg list \<Rightarrow> int" where
  "hregToIndex h [] = - 1"
| "hregToIndex h (r # rs) =
     (if r = h then 0
      else let k = hregToIndex h rs in if k = - 1 then - 1 else k + 1)"

text \<open>
  What the function reads before having written it. The arrays
  \<^verbatim>\<open>rreg_info\<close>, \<^verbatim>\<open>rreg_live_after\<close> and \<^verbatim>\<open>rreg_dead_before\<close> come from
  \<^verbatim>\<open>malloc\<close>, whose memory holds arbitrary values. The initialisation loop of
  stage 2 runs \<^verbatim>\<open>ir\<close> over the registers and stores through the index
  \<^verbatim>\<open>i\<close>, which no statement before it assigns; the final flush reads
  \<^verbatim>\<open>available_real_regs[ri]\<close>, and \<^verbatim>\<open>ri\<close> is assigned nowhere.
\<close>

record Uninit =
  u_i :: int
  u_ri :: int
  u_rreg_live_after :: "nat \<Rightarrow> int"
  u_rreg_dead_before :: "nat \<Rightarrow> int"
  u_rreg_info :: "nat \<Rightarrow> RRegInfo"

text \<open>
  The tables of the function from stage 2 on. An array that has not been
  allocated yet, or has been freed, is the empty list.
\<close>

record AllocState =
  vreg_info :: "VRegInfo list"
  rreg_info :: "RRegInfo list"
  rreg_info_used :: int
  rreg_live_after :: "int list"
  rreg_dead_before :: "int list"
  rreg_state :: "RRegState list"

definition rreg_info_size :: int where
  "rreg_info_size = 4"

text \<open>
  Lines 176 to 189. Each of the \<^verbatim>\<open>n_available_real_regs\<close> iterations of the
  initialisation loop stores \<open>- 1\<close> into the same two cells, those at index
  \<^verbatim>\<open>i\<close>; every other cell keeps what \<^verbatim>\<open>malloc\<close> left there.
\<close>

definition stage2_init :: "Uninit \<Rightarrow> VRegInfo list \<Rightarrow> int \<Rightarrow> error + AllocState" where
  "stage2_init mem vi n_available_real_regs =
     (if \<not> 0 < n_available_real_regs then Inl AssertNoRealRegs
      else if \<not> (0 \<le> u_i mem \<and> u_i mem < n_available_real_regs) then Inl UndefinedBehaviour
      else Inr
        \<lparr> vreg_info = vi,
          rreg_info = map (u_rreg_info mem) [0..<nat rreg_info_size],
          rreg_info_used = 0,
          rreg_live_after =
            (map (u_rreg_live_after mem) [0..<nat n_available_real_regs])[nat (u_i mem) := - 1],
          rreg_dead_before =
            (map (u_rreg_dead_before mem) [0..<nat n_available_real_regs])[nat (u_i mem) := - 1],
          rreg_state = [] \<rparr>)"

text \<open>
  One mention at instruction \<open>ii\<close>. A Write sets \<^verbatim>\<open>flush\<close> and the flush stores
  the old range at \<^verbatim>\<open>rreg_info[rreg_info_used]\<close>; the source does not advance
  \<^verbatim>\<open>rreg_info_used\<close> afterwards.
\<close>

fun stage2_mention :: "HReg list \<Rightarrow> int \<Rightarrow> AllocState \<Rightarrow> HReg \<times> HRegMode \<Rightarrow> error + AllocState" where
  "stage2_mention available_real_regs ii st (hreg, m) =
     (if hregIsVirtual hreg then Inr st
      else
        let ir = hregToIndex hreg available_real_regs in
        if ir = - 1 then Inr st
        else
          (case m of
             HRmWrite \<Rightarrow>
               let flush_la = rreg_live_after st ! nat ir;
                   flush_db = rreg_dead_before st ! nat ir;
                   st1 = st\<lparr>rreg_live_after := (rreg_live_after st)[nat ir := ii],
                            rreg_dead_before := (rreg_dead_before st)[nat ir := ii + 1]\<rparr>
               in
                 if rreg_info_used st1 = rreg_info_size then Inl PanicRregInfoFull1
                 else Inr (st1\<lparr>rreg_info := (rreg_info st1)[nat (rreg_info_used st1) :=
                             \<lparr> ri_rreg = hreg, ri_live_after = flush_la,
                               ri_dead_before = flush_db \<rparr>]\<rparr>)
           | HRmRead \<Rightarrow>
               if rreg_live_after st ! nat ir = - 1 then Inl PanicRregFirstRead
               else Inr (st\<lparr>rreg_dead_before := (rreg_dead_before st)[nat ir := ii]\<rparr>)
           | HRmModify \<Rightarrow>
               if rreg_live_after st ! nat ir = - 1 then Inl PanicRregFirstModify
               else Inr (st\<lparr>rreg_dead_before := (rreg_dead_before st)[nat ir := ii + 1]\<rparr>)))"

fun stage2_insn :: "HReg list \<Rightarrow> int \<Rightarrow> AllocState \<Rightarrow> HRegUsage \<Rightarrow> error + AllocState" where
  "stage2_insn available_real_regs ii st [] = Inr st"
| "stage2_insn available_real_regs ii st (hm # u) =
     (case stage2_mention available_real_regs ii st hm of
        Inl e \<Rightarrow> Inl e
      | Inr st' \<Rightarrow> stage2_insn available_real_regs ii st' u)"

fun stage2_loop ::
  "('i \<Rightarrow> HRegUsage) \<Rightarrow> HReg list \<Rightarrow> int \<Rightarrow> AllocState \<Rightarrow> 'i list \<Rightarrow> error + AllocState" where
  "stage2_loop getRegUsage available_real_regs ii st [] = Inr st"
| "stage2_loop getRegUsage available_real_regs ii st (instr # instrs) =
     (case stage2_insn available_real_regs ii st (getRegUsage instr) of
        Inl e \<Rightarrow> Inl e
      | Inr st' \<Rightarrow> stage2_loop getRegUsage available_real_regs (ii + 1) st' instrs)"

text \<open>
  Lines 254 to 264, the ranges left open, for the registers \<open>irs\<close> still to
  visit. Here too \<^verbatim>\<open>rreg_info_used\<close> stays where it is.
\<close>

fun stage2_finish :: "int \<Rightarrow> HReg list \<Rightarrow> AllocState \<Rightarrow> nat list \<Rightarrow> error + AllocState" where
  "stage2_finish ri available_real_regs st [] = Inr st"
| "stage2_finish ri available_real_regs st (ir # irs) =
     (if rreg_live_after st ! ir = - 1 then stage2_finish ri available_real_regs st irs
      else if rreg_info_used st = rreg_info_size then Inl PanicRregInfoFull2
      else if \<not> (0 \<le> ri \<and> ri < int (length available_real_regs)) then Inl UndefinedBehaviour
      else
        stage2_finish ri available_real_regs
          (st\<lparr>rreg_info := (rreg_info st)[nat (rreg_info_used st) :=
                 \<lparr> ri_rreg = available_real_regs ! nat ri,
                   ri_live_after = rreg_live_after st ! ir,
                   ri_dead_before = rreg_dead_before st ! ir \<rparr>]\<rparr>)
          irs)"

text \<open>Stage 2 as a whole; the two scratch arrays are freed at its end.\<close>

definition stage2 ::
  "('i \<Rightarrow> HRegUsage) \<Rightarrow> Uninit \<Rightarrow> VRegInfo list \<Rightarrow> 'i list \<Rightarrow> HReg list \<Rightarrow> error + AllocState" where
  "stage2 getRegUsage mem vi instrs available_real_regs =
     (case stage2_init mem vi (int (length available_real_regs)) of
        Inl e \<Rightarrow> Inl e
      | Inr st0 \<Rightarrow>
          (case stage2_loop getRegUsage available_real_regs 0 st0 instrs of
             Inl e \<Rightarrow> Inl e
           | Inr st1 \<Rightarrow>
               (case stage2_finish (u_ri mem) available_real_regs st1
                       [0..<length available_real_regs] of
                  Inl e \<Rightarrow> Inl e
                | Inr st2 \<Rightarrow> Inr (st2\<lparr>rreg_live_after := [], rreg_dead_before := []\<rparr>))))"

section \<open>Stage 3: spill slots\<close>

text \<open>
  The search loop \<^verbatim>\<open>for (j = 0; j < N_SPILL64S; j++)\<close> over the array
  \<^verbatim>\<open>ss_busy_until_before\<close> of \<^verbatim>\<open>N_SPILL64S\<close> cells: the value of \<^verbatim>\<open>j\<close> when
  the loop is left, which is the length of the array when no cell qualifies.
\<close>

fun find_slot :: "int list \<Rightarrow> int \<Rightarrow> nat" where
  "find_slot [] la = 0"
| "find_slot (b # bs) la = (if b \<le> la then 0 else Suc (find_slot bs la))"

text \<open>The body of the loop over the vregs, on \<^verbatim>\<open>vreg_info[i]\<close>.\<close>

definition stage3_vreg :: "int list \<Rightarrow> VRegInfo \<Rightarrow> error + (int list \<times> VRegInfo)" where
  "stage3_vreg ss_busy_until_before v =
     (if live_after v = - 1 then Inr (ss_busy_until_before, v)
      else
        let j = find_slot ss_busy_until_before (live_after v) in
        if j = length ss_busy_until_before then Inl PanicSpillTooLow
        else Inr (ss_busy_until_before[j := dead_before v], v\<lparr>spill_offset := int j * 8\<rparr>))"

fun stage3_loop :: "int list \<Rightarrow> VRegInfo list \<Rightarrow> error + (int list \<times> VRegInfo list)" where
  "stage3_loop ss_busy_until_before [] = Inr (ss_busy_until_before, [])"
| "stage3_loop ss_busy_until_before (v # vs) =
     (case stage3_vreg ss_busy_until_before v of
        Inl e \<Rightarrow> Inl e
      | Inr (ss1, v') \<Rightarrow>
          (case stage3_loop ss1 vs of
             Inl e \<Rightarrow> Inl e
           | Inr (ss2, vs') \<Rightarrow> Inr (ss2, v' # vs')))"

text \<open>
  \<^verbatim>\<open>N_SPILL64S\<close> is a constant that \<^verbatim>\<open>reg_alloc.c\<close> does not define; it is a
  parameter here.
\<close>

definition stage3 :: "nat \<Rightarrow> VRegInfo list \<Rightarrow> error + VRegInfo list" where
  "stage3 N_SPILL64S vi =
     (case stage3_loop (replicate N_SPILL64S 0) vi of
        Inl e \<Rightarrow> Inl e
      | Inr (ss, vi') \<Rightarrow> Inr vi')"

section \<open>Stage 5: the instruction loop\<close>

definition rreg_state_init :: "HReg list \<Rightarrow> RRegState list" where
  "rreg_state_init available_real_regs =
     map (\<lambda>r. \<lparr> rs_rreg = r, disp = Free, vreg = INVALID_HREG \<rparr>) available_real_regs"

text \<open>
  Sanity check 1. The source writes \<^verbatim>\<open>rreg_state[rreg_info[i].rreg] == Unavail\<close>,
  with a handle where an index belongs; the entry looked at is that of the
  register, found with \<^verbatim>\<open>hregToIndex\<close> as in stage 2.
\<close>

definition sanity_check1 :: "HReg list \<Rightarrow> int \<Rightarrow> AllocState \<Rightarrow> bool" where
  "sanity_check1 available_real_regs ii st =
     list_all
       (\<lambda>e. ri_live_after e < ii \<and> ii < ri_dead_before e \<longrightarrow>
            (let ir = hregToIndex (ri_rreg e) available_real_regs
             in ir \<noteq> - 1 \<and> disp (rreg_state st ! nat ir) = Unavail))
       (take (nat (rreg_info_used st)) (rreg_info st))"

definition sanity_check2 :: "int \<Rightarrow> AllocState \<Rightarrow> bool" where
  "sanity_check2 ii st =
     list_all
       (\<lambda>s. (disp s = Free \<or> disp s = Unavail \<or> disp s = Bound) \<and>
            (disp s = Unavail \<longrightarrow>
               list_ex
                 (\<lambda>e. ri_rreg e = rs_rreg s \<and> ri_live_after e < ii \<and> ii < ri_dead_before e)
                 (take (nat (rreg_info_used st)) (rreg_info st))))
       (rreg_state st)"

fun sanity_check3 :: "RRegState list \<Rightarrow> bool" where
  "sanity_check3 [] = True"
| "sanity_check3 (s # ss) =
     ((disp s = Bound \<longrightarrow> list_all (\<lambda>t. disp t = Bound \<longrightarrow> vreg s \<noteq> vreg t) ss)
      \<and> sanity_check3 ss)"

text \<open>
  Sanity check 4 names the array \<^verbatim>\<open>reg_state\<close>; \<^verbatim>\<open>rreg_state\<close> is the only
  array of that kind.
\<close>

definition sanity_check4 :: "AllocState \<Rightarrow> bool" where
  "sanity_check4 st =
     list_all
       (\<lambda>s. disp s = Bound \<longrightarrow>
            hregClass (rs_rreg s) = hregClass (vreg s)
            \<and> hregIsVirtual (vreg s) \<and> \<not> hregIsVirtual (rs_rreg s))
       (rreg_state st)"

text \<open>Lines 398 to 410: the bindings of vregs that die before instruction \<open>ii\<close>.\<close>

fun expire_loop :: "int \<Rightarrow> int \<Rightarrow> VRegInfo list \<Rightarrow> RRegState list \<Rightarrow> error + RRegState list" where
  "expire_loop n_vregs ii vi [] = Inr []"
| "expire_loop n_vregs ii vi (s # ss) =
     (if disp s \<noteq> Bound then
        (case expire_loop n_vregs ii vi ss of Inl e \<Rightarrow> Inl e | Inr ss' \<Rightarrow> Inr (s # ss'))
      else
        let iv = hregNumber (vreg s) in
        if \<not> (0 \<le> iv \<and> iv < n_vregs) then Inl AssertBoundVregRange
        else
          let s' = (if dead_before (vi ! nat iv) = ii
                    then s\<lparr>disp := Free, vreg := INVALID_HREG\<rparr> else s)
          in (case expire_loop n_vregs ii vi ss of
                Inl e \<Rightarrow> Inl e
              | Inr ss' \<Rightarrow> Inr (s' # ss')))"

definition expire_dead_bindings :: "int \<Rightarrow> int \<Rightarrow> AllocState \<Rightarrow> error + AllocState" where
  "expire_dead_bindings n_vregs ii st =
     (case expire_loop n_vregs ii (vreg_info st) (rreg_state st) of
        Inl e \<Rightarrow> Inl e
      | Inr rs \<Rightarrow> Inr (st\<lparr>rreg_state := rs\<rparr>))"

text \<open>
  One iteration of the loop of stage 5: the four sanity checks, then the expiry.
  The body ends there; what the comments after it describe is not written.
\<close>

definition stage5_insn :: "int \<Rightarrow> HReg list \<Rightarrow> int \<Rightarrow> AllocState \<Rightarrow> error + AllocState" where
  "stage5_insn n_vregs available_real_regs ii st =
     (if \<not> sanity_check1 available_real_regs ii st then Inl AssertSanity1
      else if \<not> sanity_check2 ii st then Inl AssertSanity2
      else if \<not> sanity_check3 (rreg_state st) then Inl AssertSanity3
      else if \<not> sanity_check4 st then Inl AssertSanity4
      else expire_dead_bindings n_vregs ii st)"

text \<open>The loop over the instructions from index \<open>ii\<close> on; it does not look at them.\<close>

fun stage5_loop :: "int \<Rightarrow> HReg list \<Rightarrow> int \<Rightarrow> AllocState \<Rightarrow> 'i list \<Rightarrow> error + AllocState" where
  "stage5_loop n_vregs available_real_regs ii st [] = Inr st"
| "stage5_loop n_vregs available_real_regs ii st (instr # instrs) =
     (case stage5_insn n_vregs available_real_regs ii st of
        Inl e \<Rightarrow> Inl e
      | Inr st' \<Rightarrow> stage5_loop n_vregs available_real_regs (ii + 1) st' instrs)"

definition stage5 :: "int \<Rightarrow> HReg list \<Rightarrow> AllocState \<Rightarrow> 'i list \<Rightarrow> error + AllocState" where
  "stage5 n_vregs available_real_regs st instrs =
     stage5_loop n_vregs available_real_regs 0
       (st\<lparr>rreg_state := rreg_state_init available_real_regs\<rparr>) instrs"

section \<open>The whole function\<close>

text \<open>
  The tables when the function reaches its closing brace, or the error that
  stopped it. Stage 4 is a comment. The callbacks \<^verbatim>\<open>isMove\<close>, \<^verbatim>\<open>mapRegs\<close>,
  \<^verbatim>\<open>genSpill\<close> and \<^verbatim>\<open>genRestore\<close> are never called.
\<close>

definition doRegisterAllocation_tables ::
  "('i \<Rightarrow> HRegUsage) \<Rightarrow> nat \<Rightarrow> Uninit \<Rightarrow> 'i list \<Rightarrow> int \<Rightarrow> HReg list \<Rightarrow> error + AllocState" where
  "doRegisterAllocation_tables getRegUsage N_SPILL64S mem instrs n_vregs available_real_regs =
     (case stage1 getRegUsage instrs n_vregs of
        Inl e \<Rightarrow> Inl e
      | Inr vi1 \<Rightarrow>
          (case stage2 getRegUsage mem vi1 instrs available_real_regs of
             Inl e \<Rightarrow> Inl e
           | Inr st2 \<Rightarrow>
               (case stage3 N_SPILL64S (vreg_info st2) of
                  Inl e \<Rightarrow> Inl e
                | Inr vi3 \<Rightarrow>
                    stage5 n_vregs available_real_regs (st2\<lparr>vreg_info := vi3\<rparr>) instrs)))"

text \<open>
  The function has no \<^verbatim>\<open>return\<close> statement and builds no list of instructions:
  when no panic or assertion stops it, control leaves at the closing brace
  without a value, which is \<open>None\<close>.
\<close>

definition doRegisterAllocation ::
  "('i \<Rightarrow> HRegUsage) \<Rightarrow> nat \<Rightarrow> Uninit \<Rightarrow> 'i list \<Rightarrow> int \<Rightarrow> HReg list \<Rightarrow> error + 'i list option" where
  "doRegisterAllocation getRegUsage N_SPILL64S mem instrs n_vregs available_real_regs =
     (case doRegisterAllocation_tables getRegUsage N_SPILL64S mem instrs n_vregs
             available_real_regs of
        Inl e \<Rightarrow> Inl e
      | Inr st \<Rightarrow> Inr None)"

section \<open>Stage 5 as the specification completes it\<close>

text \<open>
  The loop body of stage 5 in \<^verbatim>\<open>reg_alloc.c\<close> ends after the expiry of dead
  bindings; the statements that make a register \<open>Unavail\<close> or \<open>Bound\<close> are not
  written. Section 4.5 of the specification describes them as the steps (b), (c)
  and (d) of the per-instruction processing. This section models their effect on
  \<^verbatim>\<open>rreg_state\<close>; the spill, reload and rewritten instructions they emit are
  left out, as is step (e), which does not touch \<^verbatim>\<open>rreg_state\<close>.
\<close>


















section \<open>The properties to be proved\<close>

subsection \<open>Live ranges of vregs\<close>

text \<open>
  The range invariant of a \<^verbatim>\<open>VRegInfo\<close> entry after stage 1, and the same with
  \<open>live_after \<le> dead_before\<close> in place of the strict inequality.
\<close>

definition vreg_range_ok :: "int \<Rightarrow> VRegInfo \<Rightarrow> bool" where
  "vreg_range_ok n_instrs v \<longleftrightarrow>
     live_after v = - 1 \<or> (0 \<le> live_after v \<and> live_after v < dead_before v \<and> dead_before v \<le> n_instrs)"

definition vreg_range_weak :: "int \<Rightarrow> VRegInfo \<Rightarrow> bool" where
  "vreg_range_weak n_instrs v \<longleftrightarrow>
     live_after v = - 1 \<or> (0 \<le> live_after v \<and> live_after v \<le> dead_before v \<and> dead_before v \<le> n_instrs)"

text \<open>
  A usage record lists its reads before its writes when no Read of a vreg
  follows a Write of the vreg with the same number in the record.
\<close>

definition reads_vreg :: "int \<Rightarrow> HRegUsage \<Rightarrow> bool" where
  "reads_vreg iv u = list_ex (\<lambda>(h, m). hregIsVirtual h \<and> hregNumber h = iv \<and> m = HRmRead) u"

fun reads_precede_writes :: "HRegUsage \<Rightarrow> bool" where
  "reads_precede_writes [] = True"
| "reads_precede_writes ((h, m) # u) =
     ((hregIsVirtual h \<and> m = HRmWrite \<longrightarrow> \<not> reads_vreg (hregNumber h) u) \<and> reads_precede_writes u)"


text \<open>A usage record mentions the vreg with number \<open>iv\<close>.\<close>

definition mentions_vreg :: "int \<Rightarrow> HRegUsage \<Rightarrow> bool" where
  "mentions_vreg iv u = list_ex (\<lambda>(h, m). hregIsVirtual h \<and> hregNumber h = iv) u"

text \<open>
  The two invariants that hold between the mentions of instruction \<open>ii\<close>; the
  second one speaks of the mentions \<open>u\<close> still to come.
\<close>

definition weak_mid :: "int \<Rightarrow> VRegInfo \<Rightarrow> bool" where
  "weak_mid ii v \<longleftrightarrow>
     live_after v = - 1 \<or> (0 \<le> live_after v \<and> live_after v \<le> dead_before v \<and> live_after v \<le> ii \<and> dead_before v \<le> ii + 1)"

definition strict_mid :: "int \<Rightarrow> HRegUsage \<Rightarrow> nat \<Rightarrow> VRegInfo \<Rightarrow> bool" where
  "strict_mid ii u k v \<longleftrightarrow>
     live_after v = - 1 \<or>
     (0 \<le> live_after v \<and> live_after v < dead_before v \<and> dead_before v \<le> ii + 1 \<and>
      (live_after v = ii \<longrightarrow> \<not> reads_vreg (int k) u))"

subsection \<open>The stage-1 scan in the words of the specification\<close>

text \<open>
  The table of section 4.1 of the specification: what a mention with mode \<open>m\<close>
  at instruction \<open>ii\<close> does to the entry of its vreg, and when it is an error.
\<close>

definition table_update :: "int \<Rightarrow> HRegMode \<Rightarrow> VRegInfo \<Rightarrow> VRegInfo" where
  "table_update ii m v =
     (case m of
        HRmWrite \<Rightarrow> v\<lparr>live_after := (if live_after v = - 1 then ii else live_after v),
                       dead_before := ii + 1\<rparr>
      | HRmRead \<Rightarrow> v\<lparr>dead_before := ii\<rparr>
      | HRmModify \<Rightarrow> v\<lparr>dead_before := ii + 1\<rparr>)"

definition table_error :: "HRegMode \<Rightarrow> VRegInfo \<Rightarrow> error option" where
  "table_error m v =
     (if live_after v \<noteq> - 1 then None
      else (case m of
              HRmWrite \<Rightarrow> None
            | HRmRead \<Rightarrow> Some PanicVregFirstRead
            | HRmModify \<Rightarrow> Some PanicVregFirstModify))"

text \<open>
  The table applied to a list of mentions \<open>(ii, hreg, mode)\<close>, one after the
  other; mentions of real registers are passed over and a vreg number outside
  \<^verbatim>\<open>[0, n_vregs)\<close> is fatal.
\<close>

fun table_scan :: "int \<Rightarrow> (int \<times> HReg \<times> HRegMode) list \<Rightarrow> VRegInfo list \<Rightarrow> error + VRegInfo list" where
  "table_scan n_vregs [] vi = Inr vi"
| "table_scan n_vregs ((ii, h, m) # es) vi =
     (if \<not> hregIsVirtual h then table_scan n_vregs es vi
      else if \<not> (0 \<le> hregNumber h \<and> hregNumber h < n_vregs) then Inl AssertVregRange
      else (case table_error m (vi ! nat (hregNumber h)) of
              Some e \<Rightarrow> Inl e
            | None \<Rightarrow>
                table_scan n_vregs es
                  (vi[nat (hregNumber h) := table_update ii m (vi ! nat (hregNumber h))])))"

text \<open>
  The mentions of an instruction stream in index order: those of instruction 0
  in the order of its usage record, then those of instruction 1, and so on,
  each with the index of its instruction.
\<close>

definition mentions_in_order :: "('i \<Rightarrow> HRegUsage) \<Rightarrow> 'i list \<Rightarrow> (int \<times> HReg \<times> HRegMode) list" where
  "mentions_in_order getRegUsage instrs =
     concat (map (\<lambda>(i, instr). map (\<lambda>hm. (int i, hm)) (getRegUsage instr)) (enumerate 0 instrs))"

text \<open>
  The mentions of the vreg with number \<open>k\<close> among a list of mentions, and the
  entry that a list of mentions of one vreg describes: unused when the list is
  empty, and otherwise live after the instruction of the first mention and dead
  before the instruction of the last one if that is a Read, before the next one
  if it is a Write or a Modify.
\<close>

definition mentions_of :: "nat \<Rightarrow> (int \<times> HReg \<times> HRegMode) list \<Rightarrow> (int \<times> HReg \<times> HRegMode) list" where
  "mentions_of k es = filter (\<lambda>(ii, h, m). hregIsVirtual h \<and> hregNumber h = int k) es"

definition unused_entry :: VRegInfo where
  "unused_entry =
     \<lparr> live_after = - 1, dead_before = - 1, spill_offset = 0, spill_size = 0,
       has_preference = False, preferred_rreg = INVALID_HREG \<rparr>"

definition range_of_mentions :: "(int \<times> HReg \<times> HRegMode) list \<Rightarrow> VRegInfo" where
  "range_of_mentions es =
     (case es of
        [] \<Rightarrow> unused_entry
      | e # es' \<Rightarrow>
          unused_entry
            \<lparr>live_after := fst e,
              dead_before := (if snd (snd (last es)) = HRmRead then fst (last es)
                              else fst (last es) + 1)\<rparr>)"

subsection \<open>Spill slots\<close>

text \<open>
  A vreg is used when stage 1 gave it a range. Two ranges overlap when each
  begins before the other ends.
\<close>

definition vreg_used :: "VRegInfo \<Rightarrow> bool" where
  "vreg_used v \<longleftrightarrow> live_after v \<noteq> - 1"

definition ranges_overlap :: "VRegInfo \<Rightarrow> VRegInfo \<Rightarrow> bool" where
  "ranges_overlap v w \<longleftrightarrow> live_after v < dead_before w \<and> live_after w < dead_before v"

text \<open>
  A vreg has been assigned slot \<open>j\<close> when it is used and its spill offset is
  \<open>j * 8\<close>. In the words of the specification, \<open>busy_until_before[j]\<close> is the
  \<open>dead_before\<close> of the last vreg assigned to slot \<open>j\<close>, and 0 when there is
  none: \<open>slot_busy vs j\<close> is that value for the vregs \<open>vs\<close> handled so far.
  \<open>busy_from\<close> is the same for a pool that starts with the values \<open>ss\<close>.
\<close>

definition assigned_to :: "nat \<Rightarrow> VRegInfo \<Rightarrow> bool" where
  "assigned_to j v \<longleftrightarrow> live_after v \<noteq> - 1 \<and> spill_offset v = int j * 8"

definition slot_busy :: "VRegInfo list \<Rightarrow> nat \<Rightarrow> int" where
  "slot_busy vs j =
     (if filter (assigned_to j) vs = [] then 0
      else dead_before (last (filter (assigned_to j) vs)))"

definition busy_from :: "int list \<Rightarrow> VRegInfo list \<Rightarrow> nat \<Rightarrow> int" where
  "busy_from ss vs j =
     (if filter (assigned_to j) vs = [] then ss ! j
      else dead_before (last (filter (assigned_to j) vs)))"

subsection \<open>The running state\<close>

text \<open>
  What the expiry does to one entry of \<^verbatim>\<open>rreg_state\<close>; the condition under
  which its assertion on the vreg number holds for an entry; the injectivity of
  the map from the \<open>Bound\<close> entries to the vregs they hold; a state whose
  entries are all \<open>Free\<close>.
\<close>

definition expire_entry :: "int \<Rightarrow> VRegInfo list \<Rightarrow> RRegState \<Rightarrow> RRegState" where
  "expire_entry ii vi s =
     (if disp s = Bound \<and> dead_before (vi ! nat (hregNumber (vreg s))) = ii
      then s\<lparr>disp := Free, vreg := INVALID_HREG\<rparr> else s)"

definition bound_vreg_in_range :: "int \<Rightarrow> RRegState \<Rightarrow> bool" where
  "bound_vreg_in_range n_vregs s \<longleftrightarrow>
     (disp s = Bound \<longrightarrow> 0 \<le> hregNumber (vreg s) \<and> hregNumber (vreg s) < n_vregs)"

definition bound_injective :: "RRegState list \<Rightarrow> bool" where
  "bound_injective rs \<longleftrightarrow>
     inj_on (\<lambda>ir. vreg (rs ! ir)) {ir. ir < length rs \<and> disp (rs ! ir) = Bound}"

definition all_free :: "RRegState list \<Rightarrow> bool" where
  "all_free rs \<longleftrightarrow> list_all (\<lambda>s. disp s = Free) rs"

subsection \<open>A concrete memory\<close>

text \<open>
  A memory for running the function on concrete inputs: \<^verbatim>\<open>malloc\<close> hands out
  zeroed cells, as it does for fresh pages, and the two unassigned index
  variables hold 0.
\<close>

definition zero_filled :: Uninit where
  "zero_filled =
     \<lparr> u_i = 0, u_ri = 0, u_rreg_live_after = (\<lambda>k. 0), u_rreg_dead_before = (\<lambda>k. 0),
       u_rreg_info = (\<lambda>k. \<lparr> ri_rreg = INVALID_HREG, ri_live_after = 0, ri_dead_before = 0 \<rparr>) \<rparr>"

section \<open>Stage 1 computes the live ranges of the vregs\<close>

lemma stage1_mention_length:
  "stage1_mention n ii vi hm = Inr vi' \<Longrightarrow> length vi' = length vi"
  by (cases hm) (auto simp: Let_def split: if_splits HRegMode.splits)

lemma stage1_insn_length:
  "stage1_insn n ii vi u = Inr vi' \<Longrightarrow> length vi' = length vi"
  by (induction u arbitrary: vi) (auto split: sum.splits dest: stage1_mention_length)

lemma stage1_loop_length:
  "stage1_loop g n ii vi xs = Inr vi' \<Longrightarrow> length vi' = length vi"
  by (induction xs arbitrary: vi ii) (auto split: sum.splits dest: stage1_insn_length)

lemma stage1_insn_snoc:
  "stage1_insn n ii vi (u @ [hm]) =
     (case stage1_insn n ii vi u of Inl e \<Rightarrow> Inl e | Inr vi' \<Rightarrow> stage1_mention n ii vi' hm)"
  by (induction u arbitrary: vi) (auto split: sum.splits)

lemma stage1_loop_snoc:
  "stage1_loop g n ii vi (xs @ [x]) =
     (case stage1_loop g n ii vi xs of
        Inl e \<Rightarrow> Inl e
      | Inr vi' \<Rightarrow> stage1_insn n (ii + int (length xs)) vi' (g x))"
  by (induction xs arbitrary: vi ii) (auto split: sum.splits simp: add.assoc)

lemma table_scan_append:
  "table_scan n (es1 @ es2) vi =
     (case table_scan n es1 vi of Inl e \<Rightarrow> Inl e | Inr vi' \<Rightarrow> table_scan n es2 vi')"
  by (induction n es1 vi rule: table_scan.induct) (auto split: option.splits)

lemma stage1_mention_table_scan:
  "stage1_mention n ii vi hm = table_scan n [(ii, hm)] vi"
  by (cases hm; cases "snd hm")
     (auto simp: Let_def table_error_def table_update_def)

lemma stage1_insn_table_scan:
  "stage1_insn n ii vi u = table_scan n (map (\<lambda>hm. (ii, hm)) u) vi"
proof (induction u arbitrary: vi)
  case Nil
  then show ?case by simp
next
  case (Cons hm u)
  have "table_scan n (map (\<lambda>hm. (ii, hm)) (hm # u)) vi =
          table_scan n ([(ii, hm)] @ map (\<lambda>hm. (ii, hm)) u) vi" by simp
  also have "\<dots> = (case table_scan n [(ii, hm)] vi of
                      Inl e \<Rightarrow> Inl e
                    | Inr vi' \<Rightarrow> table_scan n (map (\<lambda>hm. (ii, hm)) u) vi')"
    by (rule table_scan_append)
  finally show ?case
    using Cons.IH by (simp add: stage1_mention_table_scan split: sum.splits)
qed

lemma stage1_loop_table_scan:
  "stage1_loop g n (int j) vi xs =
     table_scan n
       (concat (map (\<lambda>(i, instr). map (\<lambda>hm. (int i, hm)) (g instr)) (enumerate j xs))) vi"
proof (induction xs arbitrary: vi j)
  case Nil
  then show ?case by simp
next
  case (Cons x xs)
  have s: "int j + 1 = int (Suc j)" by simp
  show ?case
    using Cons.IH[of "Suc j"]
    by (simp add: table_scan_append stage1_insn_table_scan s del: of_nat_Suc split: sum.splits)
qed

lemma stage1_table_scan:
  "stage1 g instrs n = table_scan n (mentions_in_order g instrs) (vreg_info_init n)"
  using stage1_loop_table_scan[of g n 0 "vreg_info_init n" instrs]
  by (simp add: stage1_def mentions_in_order_def)

lemma table_scan_length:
  "table_scan n es vi = Inr vi' \<Longrightarrow> length vi' = length vi"
  by (induction n es vi rule: table_scan.induct) (auto split: if_splits option.splits)

lemma table_scan_unmentioned:
  "table_scan n es vi = Inr vi' \<Longrightarrow> mentions_of k es = [] \<Longrightarrow> vi' ! k = vi ! k"
proof (induction n es vi rule: table_scan.induct)
  case (1 n vi)
  then show ?case by simp
next
  case (2 n ii h m es vi)
  show ?case
  proof (cases "hregIsVirtual h")
    case False
    with 2 show ?thesis by (simp add: mentions_of_def)
  next
    case True
    with "2.prems"(2) have ne: "hregNumber h \<noteq> int k" and r: "mentions_of k es = []"
      by (auto simp: mentions_of_def split: if_splits)
    from True "2.prems"(1) have rng: "0 \<le> hregNumber h" "hregNumber h < n"
      and te: "table_error m (vi ! nat (hregNumber h)) = None"
      and run: "table_scan n es (vi[nat (hregNumber h) := table_update ii m (vi ! nat (hregNumber h))]) = Inr vi'"
      by (auto split: if_splits option.splits)
    from ne rng have "nat (hregNumber h) \<noteq> k" by linarith
    with "2.IH"(2)[OF _ _ te run r] True rng show ?thesis by simp
  qed
qed

lemma table_scan_keeps_live:
  "table_scan n es vi = Inr vi' \<Longrightarrow> k < length vi \<Longrightarrow> live_after (vi ! k) \<noteq> - 1 \<Longrightarrow>
     live_after (vi' ! k) = live_after (vi ! k)"
proof (induction n es vi rule: table_scan.induct)
  case (1 n vi)
  then show ?case by simp
next
  case (2 n ii h m es vi)
  show ?case
  proof (cases "hregIsVirtual h")
    case False
    with 2 show ?thesis by simp
  next
    case True
    from True "2.prems"(1) have rng: "0 \<le> hregNumber h" "hregNumber h < n"
      and te: "table_error m (vi ! nat (hregNumber h)) = None"
      and run: "table_scan n es (vi[nat (hregNumber h) := table_update ii m (vi ! nat (hregNumber h))]) = Inr vi'"
      by (auto split: if_splits option.splits)
    let ?vi1 = "vi[nat (hregNumber h) := table_update ii m (vi ! nat (hregNumber h))]"
    have "live_after (?vi1 ! k) = live_after (vi ! k)"
      using "2.prems"(2,3)
      by (cases "k = nat (hregNumber h)"; cases m) (auto simp: table_update_def)
    with "2.IH"(2)[OF _ _ te run] True rng "2.prems"(2,3) show ?thesis by simp
  qed
qed


lemma mentions_in_order_nonneg:
  "(ii, hm) \<in> set (mentions_in_order g instrs) \<Longrightarrow> 0 \<le> ii"
  by (auto simp: mentions_in_order_def)

lemma table_scan_first:
  assumes "table_scan n es vi = Inr vi'" and "k < length vi" and "live_after (vi ! k) = - 1"
    and "mentions_of k es \<noteq> []" and "\<forall>e\<in>set es. 0 \<le> fst e"
  shows "live_after (vi' ! k) = fst (hd (mentions_of k es))
         \<and> snd (snd (hd (mentions_of k es))) = HRmWrite"
  using assms
proof (induction n es vi rule: table_scan.induct)
  case (1 n vi)
  then show ?case by (simp add: mentions_of_def)
next
  case (2 n ii h m es vi)
  show ?case
  proof (cases "hregIsVirtual h")
    case False
    with 2 show ?thesis by (simp add: mentions_of_def)
  next
    case True
    from True "2.prems"(1) have rng: "0 \<le> hregNumber h" "hregNumber h < n"
      and te: "table_error m (vi ! nat (hregNumber h)) = None"
      and run: "table_scan n es (vi[nat (hregNumber h) := table_update ii m (vi ! nat (hregNumber h))]) = Inr vi'"
      by (auto split: if_splits option.splits)
    let ?vi1 = "vi[nat (hregNumber h) := table_update ii m (vi ! nat (hregNumber h))]"
    have r: "\<forall>e\<in>set es. 0 \<le> fst e" and i0: "0 \<le> ii" using "2.prems"(5) by simp_all
    show ?thesis
    proof (cases "hregNumber h = int k")
      case here: True
      then have k: "nat (hregNumber h) = k" by simp
      from te "2.prems"(3) k have w: "m = HRmWrite"
        by (cases m) (simp_all add: table_error_def)
      have "live_after (?vi1 ! k) = ii"
        using k w "2.prems"(2,3) by (simp add: table_update_def)
      moreover have "live_after (?vi1 ! k) \<noteq> - 1" using calculation i0 by simp
      ultimately have "live_after (vi' ! k) = ii"
        using table_scan_keeps_live[OF run, of k] "2.prems"(2) by simp
      with w True here show ?thesis by (simp add: mentions_of_def)
    next
      case other: False
      with rng have ne: "nat (hregNumber h) \<noteq> k" by linarith
      from other have m': "mentions_of k ((ii, h, m) # es) = mentions_of k es"
        by (simp add: mentions_of_def)
      have "live_after (?vi1 ! k) = - 1" using ne "2.prems"(3) by simp
      with "2.IH"(2)[OF _ _ te run] True rng "2.prems"(2,4) r m' show ?thesis by simp
    qed
  qed
qed

lemma table_scan_last:
  assumes "table_scan n es vi = Inr vi'" and "k < length vi" and "mentions_of k es \<noteq> []"
  shows "dead_before (vi' ! k) =
           (if snd (snd (last (mentions_of k es))) = HRmRead then fst (last (mentions_of k es))
            else fst (last (mentions_of k es)) + 1)
         \<and> spill_offset (vi' ! k) = spill_offset (vi ! k)
         \<and> spill_size (vi' ! k) = spill_size (vi ! k)
         \<and> has_preference (vi' ! k) = has_preference (vi ! k)
         \<and> preferred_rreg (vi' ! k) = preferred_rreg (vi ! k)"
  using assms
proof (induction n es vi rule: table_scan.induct)
  case (1 n vi)
  then show ?case by (simp add: mentions_of_def)
next
  case (2 n ii h m es vi)
  show ?case
  proof (cases "hregIsVirtual h")
    case False
    with 2 show ?thesis by (simp add: mentions_of_def)
  next
    case True
    from True "2.prems"(1) have rng: "0 \<le> hregNumber h" "hregNumber h < n"
      and te: "table_error m (vi ! nat (hregNumber h)) = None"
      and run: "table_scan n es (vi[nat (hregNumber h) := table_update ii m (vi ! nat (hregNumber h))]) = Inr vi'"
      by (auto split: if_splits option.splits)
    let ?vi1 = "vi[nat (hregNumber h) := table_update ii m (vi ! nat (hregNumber h))]"
    have l1: "k < length ?vi1" using "2.prems"(2) by simp
    show ?thesis
    proof (cases "hregNumber h = int k")
      case here: True
      then have k: "nat (hregNumber h) = k" by simp
      have f: "dead_before (?vi1 ! k) = (if m = HRmRead then ii else ii + 1)"
        "spill_offset (?vi1 ! k) = spill_offset (vi ! k)"
        "spill_size (?vi1 ! k) = spill_size (vi ! k)"
        "has_preference (?vi1 ! k) = has_preference (vi ! k)"
        "preferred_rreg (?vi1 ! k) = preferred_rreg (vi ! k)"
        using k "2.prems"(2) by (cases m; simp add: table_update_def)+
      show ?thesis
      proof (cases "mentions_of k es = []")
        case True
        from table_scan_unmentioned[OF run True] f here \<open>hregIsVirtual h\<close> True
        show ?thesis by (simp add: mentions_of_def)
      next
        case False
        from "2.IH"(2)[OF _ _ te run l1 False] \<open>hregIsVirtual h\<close> rng f False here
        show ?thesis by (simp add: mentions_of_def)
      qed
    next
      case other: False
      with rng have ne: "nat (hregNumber h) \<noteq> k" by linarith
      from other have m': "mentions_of k ((ii, h, m) # es) = mentions_of k es"
        by (simp add: mentions_of_def)
      with "2.prems"(3) have "mentions_of k es \<noteq> []" by simp
      from "2.IH"(2)[OF _ _ te run l1 this] True rng ne m' show ?thesis by simp
    qed
  qed
qed

lemma table_scan_ranges:
  assumes "table_scan n (mentions_in_order g instrs) (vreg_info_init n) = Inr vi"
    and "k < nat n"
  shows "vi ! k = range_of_mentions (mentions_of k (mentions_in_order g instrs))
         \<and> (mentions_of k (mentions_in_order g instrs) \<noteq> [] \<longrightarrow>
              snd (snd (hd (mentions_of k (mentions_in_order g instrs)))) = HRmWrite)"
proof (cases "mentions_of k (mentions_in_order g instrs) = []")
  case True
  from table_scan_unmentioned[OF assms(1) True] assms(2) True show ?thesis
    by (simp add: range_of_mentions_def vreg_info_init_def unused_entry_def)
next
  case False
  let ?es = "mentions_of k (mentions_in_order g instrs)"
  have k: "k < length (vreg_info_init n)" using assms(2) by (simp add: vreg_info_init_def)
  have i: "vreg_info_init n ! k = unused_entry"
    using assms(2) by (simp add: vreg_info_init_def unused_entry_def)
  have nn: "\<forall>e\<in>set (mentions_in_order g instrs). 0 \<le> fst e"
    using mentions_in_order_nonneg[of _ _ g instrs] by auto
  from table_scan_first[OF assms(1) k _ False nn] i
  have a: "live_after (vi ! k) = fst (hd ?es)" "snd (snd (hd ?es)) = HRmWrite"
    by (simp_all add: unused_entry_def)
  from table_scan_last[OF assms(1) k False] i
  have b: "dead_before (vi ! k) =
           (if snd (snd (last ?es)) = HRmRead then fst (last ?es) else fst (last ?es) + 1)"
    "spill_offset (vi ! k) = 0" "spill_size (vi ! k) = 0" "has_preference (vi ! k) = False"
    "preferred_rreg (vi ! k) = INVALID_HREG"
    by (simp_all add: unused_entry_def)
  obtain e es' where c: "?es = e # es'" using False by (cases ?es) auto
  have "vi ! k = range_of_mentions ?es"
    using a(1) b
    by (simp add: c range_of_mentions_def unused_entry_def)
  with a(2) show ?thesis by simp
qed


lemma stage1_mention_effect:
  assumes "hregIsVirtual h" and "0 \<le> hregNumber h" and "hregNumber h < n_vregs"
    and "length vi = nat n_vregs"
  shows "(case stage1_mention n_vregs ii vi (h, m) of
              Inl e \<Rightarrow>
                m \<noteq> HRmWrite \<and> live_after (vi ! nat (hregNumber h)) = - 1
                \<and> e = (if m = HRmRead then PanicVregFirstRead else PanicVregFirstModify)
            | Inr vi' \<Rightarrow>
                (m = HRmWrite \<or> live_after (vi ! nat (hregNumber h)) \<noteq> - 1)
                \<and> length vi' = length vi
                \<and> (\<forall>k<length vi. k \<noteq> nat (hregNumber h) \<longrightarrow> vi' ! k = vi ! k)
                \<and> live_after (vi' ! nat (hregNumber h)) =
                    (if m = HRmWrite \<and> live_after (vi ! nat (hregNumber h)) = - 1 then ii
                     else live_after (vi ! nat (hregNumber h)))
                \<and> dead_before (vi' ! nat (hregNumber h)) = (if m = HRmRead then ii else ii + 1)
                \<and> spill_offset (vi' ! nat (hregNumber h)) = spill_offset (vi ! nat (hregNumber h))
                \<and> spill_size (vi' ! nat (hregNumber h)) = spill_size (vi ! nat (hregNumber h))
                \<and> has_preference (vi' ! nat (hregNumber h)) = has_preference (vi ! nat (hregNumber h))
                \<and> preferred_rreg (vi' ! nat (hregNumber h)) = preferred_rreg (vi ! nat (hregNumber h)))"
proof -
  have iv: "nat (hregNumber h) < length vi" using assms by simp
  show ?thesis using assms(1-3) iv by (cases m) (simp_all add: Let_def)
qed

text \<open>
  C4. The stage-1 scan is the table of the specification applied to the mentions
  of the stream in index order, starting from the table of unused entries: it
  stops with the same error or ends with the same table. Hence, when it is not
  stopped, the entry of each vreg is the one its mentions describe: unused
  without a mention, and otherwise \<open>live_after\<close> is the index of the first
  mention, which is a Write, and \<open>dead_before\<close> is the index of the last
  mention if that is a Read and the index after it if it is a Write or a Modify.
  A single mention of a vreg \<open>iv\<close> within \<^verbatim>\<open>[0, n_vregs)\<close> at instruction \<open>ii\<close>
  changes the entry \<open>iv\<close> only, and there only the two range fields: a Write
  sets \<open>live_after\<close> to \<open>ii\<close> if it was \<open>- 1\<close> and sets \<open>dead_before\<close> to
  \<open>ii + 1\<close>; a Read sets \<open>dead_before\<close> to \<open>ii\<close>; a Modify sets
  \<open>dead_before\<close> to \<open>ii + 1\<close>; a Read or Modify of a vreg whose
  \<open>live_after\<close> is still \<open>- 1\<close> is the only way in which the mention fails.
  Each of the two loop functions does nothing on an empty list, and on a list
  extended by one element it runs on the list and then handles that element, an
  instruction at the next index.
\<close>

theorem stage1_scan_table:
  "stage1 getRegUsage instrs n_vregs =
     table_scan n_vregs (mentions_in_order getRegUsage instrs) (vreg_info_init n_vregs)
   \<and> (stage1 getRegUsage instrs n_vregs = Inr vi1 \<longrightarrow>
        length vi1 = nat n_vregs
        \<and> (\<forall>k<nat n_vregs.
              vi1 ! k = range_of_mentions (mentions_of k (mentions_in_order getRegUsage instrs))
              \<and> (mentions_of k (mentions_in_order getRegUsage instrs) \<noteq> [] \<longrightarrow>
                   snd (snd (hd (mentions_of k (mentions_in_order getRegUsage instrs))))
                     = HRmWrite)))
   \<and> (hregIsVirtual h \<and> 0 \<le> hregNumber h \<and> hregNumber h < n_vregs
        \<and> length vi = nat n_vregs \<longrightarrow>
          (case stage1_mention n_vregs ii vi (h, m) of
              Inl e \<Rightarrow>
                m \<noteq> HRmWrite \<and> live_after (vi ! nat (hregNumber h)) = - 1
                \<and> e = (if m = HRmRead then PanicVregFirstRead else PanicVregFirstModify)
            | Inr vi' \<Rightarrow>
                (m = HRmWrite \<or> live_after (vi ! nat (hregNumber h)) \<noteq> - 1)
                \<and> length vi' = length vi
                \<and> (\<forall>k<length vi. k \<noteq> nat (hregNumber h) \<longrightarrow> vi' ! k = vi ! k)
                \<and> live_after (vi' ! nat (hregNumber h)) =
                    (if m = HRmWrite \<and> live_after (vi ! nat (hregNumber h)) = - 1 then ii
                     else live_after (vi ! nat (hregNumber h)))
                \<and> dead_before (vi' ! nat (hregNumber h)) = (if m = HRmRead then ii else ii + 1)
                \<and> spill_offset (vi' ! nat (hregNumber h)) = spill_offset (vi ! nat (hregNumber h))
                \<and> spill_size (vi' ! nat (hregNumber h)) = spill_size (vi ! nat (hregNumber h))
                \<and> has_preference (vi' ! nat (hregNumber h)) = has_preference (vi ! nat (hregNumber h))
                \<and> preferred_rreg (vi' ! nat (hregNumber h)) = preferred_rreg (vi ! nat (hregNumber h))))
   \<and> stage1_insn n_vregs ii vi [] = Inr vi
   \<and> stage1_insn n_vregs ii vi (u @ [(h, m)]) =
       (case stage1_insn n_vregs ii vi u of
          Inl e \<Rightarrow> Inl e
        | Inr vi' \<Rightarrow> stage1_mention n_vregs ii vi' (h, m))
   \<and> stage1_loop getRegUsage n_vregs ii vi [] = Inr vi
   \<and> stage1_loop getRegUsage n_vregs ii vi (instrs @ [instr]) =
       (case stage1_loop getRegUsage n_vregs ii vi instrs of
          Inl e \<Rightarrow> Inl e
        | Inr vi' \<Rightarrow> stage1_insn n_vregs (ii + int (length instrs)) vi' (getRegUsage instr))
   \<and> stage1 getRegUsage instrs n_vregs =
       stage1_loop getRegUsage n_vregs 0 (vreg_info_init n_vregs) instrs"
proof (intro conjI impI allI)
  show "stage1 getRegUsage instrs n_vregs =
     table_scan n_vregs (mentions_in_order getRegUsage instrs) (vreg_info_init n_vregs)"
    by (rule stage1_table_scan)
next
  assume a: "stage1 getRegUsage instrs n_vregs = Inr vi1"
  then have "stage1_loop getRegUsage n_vregs 0 (vreg_info_init n_vregs) instrs = Inr vi1"
    by (simp add: stage1_def)
  from stage1_loop_length[OF this] show "length vi1 = nat n_vregs"
    by (simp add: vreg_info_init_def)
next
  fix k
  assume a: "stage1 getRegUsage instrs n_vregs = Inr vi1" and k: "k < nat n_vregs"
  from a have t: "table_scan n_vregs (mentions_in_order getRegUsage instrs)
                    (vreg_info_init n_vregs) = Inr vi1"
    by (simp add: stage1_table_scan)
  from table_scan_ranges[OF t k]
  show "vi1 ! k = range_of_mentions (mentions_of k (mentions_in_order getRegUsage instrs))"
    by blast
  assume "mentions_of k (mentions_in_order getRegUsage instrs) \<noteq> []"
  with table_scan_ranges[OF t k]
  show "snd (snd (hd (mentions_of k (mentions_in_order getRegUsage instrs)))) = HRmWrite"
    by blast
next
  assume "hregIsVirtual h \<and> 0 \<le> hregNumber h \<and> hregNumber h < n_vregs
        \<and> length vi = nat n_vregs"
  then show "(case stage1_mention n_vregs ii vi (h, m) of
              Inl e \<Rightarrow>
                m \<noteq> HRmWrite \<and> live_after (vi ! nat (hregNumber h)) = - 1
                \<and> e = (if m = HRmRead then PanicVregFirstRead else PanicVregFirstModify)
            | Inr vi' \<Rightarrow>
                (m = HRmWrite \<or> live_after (vi ! nat (hregNumber h)) \<noteq> - 1)
                \<and> length vi' = length vi
                \<and> (\<forall>k<length vi. k \<noteq> nat (hregNumber h) \<longrightarrow> vi' ! k = vi ! k)
                \<and> live_after (vi' ! nat (hregNumber h)) =
                    (if m = HRmWrite \<and> live_after (vi ! nat (hregNumber h)) = - 1 then ii
                     else live_after (vi ! nat (hregNumber h)))
                \<and> dead_before (vi' ! nat (hregNumber h)) = (if m = HRmRead then ii else ii + 1)
                \<and> spill_offset (vi' ! nat (hregNumber h)) = spill_offset (vi ! nat (hregNumber h))
                \<and> spill_size (vi' ! nat (hregNumber h)) = spill_size (vi ! nat (hregNumber h))
                \<and> has_preference (vi' ! nat (hregNumber h)) = has_preference (vi ! nat (hregNumber h))
                \<and> preferred_rreg (vi' ! nat (hregNumber h)) = preferred_rreg (vi ! nat (hregNumber h)))"
    using stage1_mention_effect[where h = h and n_vregs = n_vregs and vi = vi and ii = ii and m = m]
    by blast
next
  show "stage1_insn n_vregs ii vi [] = Inr vi" by simp
next
  show "stage1_insn n_vregs ii vi (u @ [(h, m)]) =
       (case stage1_insn n_vregs ii vi u of
          Inl e \<Rightarrow> Inl e
        | Inr vi' \<Rightarrow> stage1_mention n_vregs ii vi' (h, m))"
    by (rule stage1_insn_snoc)
next
  show "stage1_loop getRegUsage n_vregs ii vi [] = Inr vi" by simp
next
  show "stage1_loop getRegUsage n_vregs ii vi (instrs @ [instr]) =
       (case stage1_loop getRegUsage n_vregs ii vi instrs of
          Inl e \<Rightarrow> Inl e
        | Inr vi' \<Rightarrow> stage1_insn n_vregs (ii + int (length instrs)) vi' (getRegUsage instr))"
    by (rule stage1_loop_snoc)
next
  show "stage1 getRegUsage instrs n_vregs =
       stage1_loop getRegUsage n_vregs 0 (vreg_info_init n_vregs) instrs"
    by (simp add: stage1_def)
qed

theorem stage1_scan_table_witness:
  "stage1 id
     [[(HReg True HRcInt 0, HRmWrite)],
      [(HReg False HRcInt 0, HRmWrite), (HReg True HRcInt 0, HRmRead)],
      [(HReg True HRcInt 0, HRmModify)]] 1 =
   Inr [\<lparr> live_after = 0, dead_before = 3, spill_offset = 0, spill_size = 0,
          has_preference = False, preferred_rreg = INVALID_HREG \<rparr>]
   \<and> mentions_of 0
       (mentions_in_order id
          [[(HReg True HRcInt 0, HRmWrite)],
           [(HReg False HRcInt 0, HRmWrite), (HReg True HRcInt 0, HRmRead)],
           [(HReg True HRcInt 0, HRmModify)]]) =
     [(0, HReg True HRcInt 0, HRmWrite), (1, HReg True HRcInt 0, HRmRead),
      (2, HReg True HRcInt 0, HRmModify)]
   \<and> range_of_mentions
       [(0, HReg True HRcInt 0, HRmWrite), (1, HReg True HRcInt 0, HRmRead),
        (2, HReg True HRcInt 0, HRmModify)] =
     \<lparr> live_after = 0, dead_before = 3, spill_offset = 0, spill_size = 0,
       has_preference = False, preferred_rreg = INVALID_HREG \<rparr>
   \<and> hregIsVirtual (HReg True HRcInt 0) \<and> 0 \<le> hregNumber (HReg True HRcInt 0)
   \<and> hregNumber (HReg True HRcInt 0) < 1 \<and> length (vreg_info_init 1) = nat 1
   \<and> (\<exists>vi'. stage1_mention 1 3 (vreg_info_init 1) (HReg True HRcInt 0, HRmWrite) = Inr vi'
         \<and> live_after (vi' ! 0) = 3 \<and> dead_before (vi' ! 0) = 4)"
proof -
  let ?instrs = "[[(HReg True HRcInt 0, HRmWrite)],
      [(HReg False HRcInt 0, HRmWrite), (HReg True HRcInt 0, HRmRead)],
      [(HReg True HRcInt 0, HRmModify)]]"
  let ?es = "[(0, HReg True HRcInt 0, HRmWrite), (1, HReg True HRcInt 0, HRmRead),
      (2::int, HReg True HRcInt 0, HRmModify)]"
  note t = stage1_scan_table[where getRegUsage = id and instrs = ?instrs and n_vregs = 1
      and h = "HReg True HRcInt 0" and vi = "vreg_info_init 1" and ii = 3 and m = HRmWrite]
  have m: "mentions_of 0 (mentions_in_order id ?instrs) = ?es"
    by (simp add: mentions_of_def mentions_in_order_def)
  have ts: "table_scan 1 (mentions_in_order id ?instrs) (vreg_info_init 1) =
      Inr [\<lparr> live_after = 0, dead_before = 3, spill_offset = 0, spill_size = 0,
          has_preference = False, preferred_rreg = INVALID_HREG \<rparr>]"
    by (simp add: mentions_in_order_def vreg_info_init_def table_error_def table_update_def)
  from t[THEN conjunct1] ts
  have run: "stage1 id ?instrs 1 =
      Inr [\<lparr> live_after = 0, dead_before = 3, spill_offset = 0, spill_size = 0,
          has_preference = False, preferred_rreg = INVALID_HREG \<rparr>]"
    by simp
  from t[THEN conjunct2, THEN conjunct1, rule_format, OF run, THEN conjunct2, rule_format, of 0] m
  have r: "range_of_mentions ?es =
     \<lparr> live_after = 0, dead_before = 3, spill_offset = 0, spill_size = 0,
       has_preference = False, preferred_rreg = INVALID_HREG \<rparr>"
    by simp
  have h: "hregIsVirtual (HReg True HRcInt 0) \<and> 0 \<le> hregNumber (HReg True HRcInt 0)
     \<and> hregNumber (HReg True HRcInt 0) < 1 \<and> length (vreg_info_init 1) = nat 1"
    by (simp add: vreg_info_init_def)
  have v: "live_after (vreg_info_init 1 ! 0) = - 1" by (simp add: vreg_info_init_def)
  from t[THEN conjunct2, THEN conjunct2, THEN conjunct1, rule_format, OF h] v
  have e: "\<exists>vi'. stage1_mention 1 3 (vreg_info_init 1) (HReg True HRcInt 0, HRmWrite) = Inr vi'
         \<and> live_after (vi' ! 0) = 3 \<and> dead_before (vi' ! 0) = 4"
    by (auto split: sum.splits)
  from run m r h e show ?thesis by blast
qed

lemma stage1_mention_weak:
  assumes "stage1_mention n ii vi hm = Inr vi'" "0 \<le> ii" "length vi = nat n"
    and "\<forall>k<length vi. weak_mid ii (vi ! k)"
  shows "\<forall>k<length vi'. weak_mid ii (vi' ! k)"
  using assms
  by (cases hm) (auto simp: Let_def weak_mid_def nth_list_update split: if_splits HRegMode.splits)

lemma stage1_insn_weak:
  assumes "stage1_insn n ii vi u = Inr vi'" "0 \<le> ii" "length vi = nat n"
    and "\<forall>k<length vi. weak_mid ii (vi ! k)"
  shows "\<forall>k<length vi'. weak_mid ii (vi' ! k)"
  using assms
proof (induction u arbitrary: vi)
  case Nil
  then show ?case by simp
next
  case (Cons hm u)
  from Cons.prems(1) obtain vi1 where m: "stage1_mention n ii vi hm = Inr vi1"
    and r: "stage1_insn n ii vi1 u = Inr vi'"
    by (auto split: sum.splits)
  have l: "length vi1 = nat n" using stage1_mention_length[OF m] Cons.prems(3) by simp
  have "\<forall>k<length vi1. weak_mid ii (vi1 ! k)"
    using stage1_mention_weak[OF m Cons.prems(2,3,4)] .
  from Cons.IH[OF r Cons.prems(2) l this] show ?case .
qed

lemma stage1_loop_weak:
  assumes "stage1_loop g n ii vi xs = Inr vi'" "0 \<le> ii" "length vi = nat n"
    and "\<forall>k<length vi. vreg_range_weak ii (vi ! k)"
  shows "\<forall>k<length vi'. vreg_range_weak (ii + int (length xs)) (vi' ! k)"
  using assms
proof (induction xs arbitrary: vi ii)
  case Nil
  then show ?case by simp
next
  case (Cons x xs)
  from Cons.prems(1) obtain vi1 where m: "stage1_insn n ii vi (g x) = Inr vi1"
    and r: "stage1_loop g n (ii + 1) vi1 xs = Inr vi'"
    by (auto split: sum.splits)
  have l: "length vi1 = nat n" using stage1_insn_length[OF m] Cons.prems(3) by simp
  have "\<forall>k<length vi. weak_mid ii (vi ! k)"
    using Cons.prems(4) by (auto simp: weak_mid_def vreg_range_weak_def)
  from stage1_insn_weak[OF m Cons.prems(2,3) this]
  have "\<forall>k<length vi1. vreg_range_weak (ii + 1) (vi1 ! k)"
    by (auto simp: weak_mid_def vreg_range_weak_def)
  from Cons.IH[OF r _ l this] Cons.prems(2) show ?case by (simp add: add.assoc)
qed

lemma stage1_mention_strict:
  assumes "stage1_mention n ii vi hm = Inr vi'" "0 \<le> ii" "length vi = nat n"
    and "reads_precede_writes (hm # u)"
    and "\<forall>k<length vi. strict_mid ii (hm # u) k (vi ! k)"
  shows "\<forall>k<length vi'. strict_mid ii u k (vi' ! k)"
proof (intro allI impI)
  fix k assume "k < length vi'"
  then have k: "k < length vi" using stage1_mention_length[OF assms(1)] by simp
  with assms(5) have s: "strict_mid ii (hm # u) k (vi ! k)" by simp
  obtain h m where hm: "hm = (h, m)" by (cases hm)
  show "strict_mid ii u k (vi' ! k)"
    using assms(1-4) s k unfolding hm
    by (auto simp: Let_def strict_mid_def reads_vreg_def nth_list_update
             split: if_splits HRegMode.splits)
qed

lemma stage1_insn_strict:
  assumes "stage1_insn n ii vi u = Inr vi'" "0 \<le> ii" "length vi = nat n"
    and "reads_precede_writes u"
    and "\<forall>k<length vi. strict_mid ii u k (vi ! k)"
  shows "\<forall>k<length vi'. strict_mid ii [] k (vi' ! k)"
  using assms
proof (induction u arbitrary: vi)
  case Nil
  then show ?case by simp
next
  case (Cons hm u)
  from Cons.prems(1) obtain vi1 where m: "stage1_mention n ii vi hm = Inr vi1"
    and r: "stage1_insn n ii vi1 u = Inr vi'"
    by (auto split: sum.splits)
  have l: "length vi1 = nat n" using stage1_mention_length[OF m] Cons.prems(3) by simp
  have rp: "reads_precede_writes u" using Cons.prems(4) by (cases hm) simp
  have "\<forall>k<length vi1. strict_mid ii u k (vi1 ! k)"
    using stage1_mention_strict[OF m Cons.prems(2,3,4,5)] .
  from Cons.IH[OF r Cons.prems(2) l rp this] show ?case .
qed

lemma stage1_loop_strict:
  assumes "stage1_loop g n ii vi xs = Inr vi'" "0 \<le> ii" "length vi = nat n"
    and "\<forall>x\<in>set xs. reads_precede_writes (g x)"
    and "\<forall>k<length vi. vreg_range_ok ii (vi ! k)"
  shows "\<forall>k<length vi'. vreg_range_ok (ii + int (length xs)) (vi' ! k)"
  using assms
proof (induction xs arbitrary: vi ii)
  case Nil
  then show ?case by simp
next
  case (Cons x xs)
  from Cons.prems(1) obtain vi1 where m: "stage1_insn n ii vi (g x) = Inr vi1"
    and r: "stage1_loop g n (ii + 1) vi1 xs = Inr vi'"
    by (auto split: sum.splits)
  have l: "length vi1 = nat n" using stage1_insn_length[OF m] Cons.prems(3) by simp
  have rp: "reads_precede_writes (g x)" and rps: "\<forall>x\<in>set xs. reads_precede_writes (g x)"
    using Cons.prems(4) by simp_all
  have "\<forall>k<length vi. strict_mid ii (g x) k (vi ! k)"
    using Cons.prems(5) by (auto simp: strict_mid_def vreg_range_ok_def)
  from stage1_insn_strict[OF m Cons.prems(2,3) rp this]
  have "\<forall>k<length vi1. vreg_range_ok (ii + 1) (vi1 ! k)"
    by (auto simp: strict_mid_def vreg_range_ok_def)
  from Cons.IH[OF r _ l rps this] Cons.prems(2) show ?case by (simp add: add.assoc)
qed

text \<open>
  C3, as the code has it. The mentions of one instruction are handled in the
  order of the usage record, so a Read listed after the Write that opened the
  range, at the same instruction, moves \<open>dead_before\<close> back onto
  \<open>live_after\<close>. After a scan that was not stopped, every entry is unused or
  has \<open>0 \<le> live_after \<le> dead_before \<le> n_instrs\<close>, whatever the order of the
  mentions; the strict \<open>live_after < dead_before\<close> holds when every usage record
  lists its reads before its writes.
\<close>

theorem stage1_ranges:
  assumes "stage1 getRegUsage instrs n_vregs = Inr vi"
  shows "length vi = nat n_vregs
       \<and> (\<forall>k<length vi. vreg_range_weak (int (length instrs)) (vi ! k))
       \<and> ((\<forall>x\<in>set instrs. reads_precede_writes (getRegUsage x)) \<longrightarrow>
            (\<forall>k<length vi. vreg_range_ok (int (length instrs)) (vi ! k)))"
proof -
  let ?vi0 = "vreg_info_init n_vregs"
  have run: "stage1_loop getRegUsage n_vregs 0 ?vi0 instrs = Inr vi"
    using assms by (simp add: stage1_def)
  have l0: "length ?vi0 = nat n_vregs" by (simp add: vreg_info_init_def)
  have w0: "\<forall>k<length ?vi0. vreg_range_weak 0 (?vi0 ! k)"
    by (simp add: vreg_info_init_def vreg_range_weak_def)
  have s0: "\<forall>k<length ?vi0. vreg_range_ok 0 (?vi0 ! k)"
    by (simp add: vreg_info_init_def vreg_range_ok_def)
  have "length vi = nat n_vregs"
    using stage1_loop_length[OF run] l0 by simp
  moreover have "\<forall>k<length vi. vreg_range_weak (int (length instrs)) (vi ! k)"
    using stage1_loop_weak[OF run _ l0 w0] by simp
  moreover have "(\<forall>x\<in>set instrs. reads_precede_writes (getRegUsage x)) \<longrightarrow>
            (\<forall>k<length vi. vreg_range_ok (int (length instrs)) (vi ! k))"
    using stage1_loop_strict[OF run _ l0 _ s0] by simp
  ultimately show ?thesis by blast
qed


theorem stage1_ranges_witness:
  "stage1 id [[(HReg True HRcInt 0, HRmWrite)], [(HReg True HRcInt 0, HRmRead)]] 1 =
     Inr [\<lparr> live_after = 0, dead_before = 1, spill_offset = 0, spill_size = 0,
            has_preference = False, preferred_rreg = INVALID_HREG \<rparr>]
   \<and> reads_precede_writes (id [(HReg True HRcInt 0, HRmWrite)])
   \<and> reads_precede_writes (id [(HReg True HRcInt 0, HRmRead)])
   \<and> vreg_range_weak 2
       \<lparr> live_after = 0, dead_before = 1, spill_offset = 0, spill_size = 0,
         has_preference = False, preferred_rreg = INVALID_HREG \<rparr>
   \<and> vreg_range_ok 2
       \<lparr> live_after = 0, dead_before = 1, spill_offset = 0, spill_size = 0,
         has_preference = False, preferred_rreg = INVALID_HREG \<rparr>"
proof -
  let ?instrs = "[[(HReg True HRcInt 0, HRmWrite)], [(HReg True HRcInt 0, HRmRead)]]"
  let ?v = "\<lparr> live_after = 0, dead_before = 1, spill_offset = 0, spill_size = 0,
            has_preference = False, preferred_rreg = INVALID_HREG \<rparr>"
  have run: "stage1 id ?instrs 1 = Inr [?v]"
    by (simp add: stage1_def vreg_info_init_def)
  have rpw: "reads_precede_writes (id [(HReg True HRcInt 0, HRmWrite)])"
      "reads_precede_writes (id [(HReg True HRcInt 0, HRmRead)])"
    by (simp_all add: reads_vreg_def)
  from stage1_ranges[OF run] rpw have "vreg_range_weak 2 ?v" "vreg_range_ok 2 ?v"
    by simp_all
  with run rpw show ?thesis by blast
qed

text \<open>
  The claim C3 as it was stated fails on a single instruction whose usage
  record lists a Write of vreg 0 and then a Read of it: the scan accepts the
  stream and leaves \<open>live_after = dead_before = 0\<close>.
\<close>

theorem stage1_write_then_read_counterexample:
  "stage1 id [[(HReg True HRcInt 0, HRmWrite), (HReg True HRcInt 0, HRmRead)]] 1 =
     Inr [\<lparr> live_after = 0, dead_before = 0, spill_offset = 0, spill_size = 0,
            has_preference = False, preferred_rreg = INVALID_HREG \<rparr>]
   \<and> \<not> vreg_range_ok 1
       \<lparr> live_after = 0, dead_before = 0, spill_offset = 0, spill_size = 0,
         has_preference = False, preferred_rreg = INVALID_HREG \<rparr>"
  by (simp add: stage1_def vreg_info_init_def vreg_range_ok_def)

section \<open>Stage 3 packs the vregs into spill slots by first fit\<close>

lemma find_slot_le: "find_slot ss la \<le> length ss"
  by (induction ss) auto

lemma find_slot_hit:
  "find_slot ss la < length ss \<Longrightarrow> ss ! find_slot ss la \<le> la"
  by (induction ss) (auto split: if_splits)

lemma find_slot_before:
  "k < find_slot ss la \<Longrightarrow> la < ss ! k"
proof (induction ss arbitrary: k)
  case Nil
  then show ?case by simp
next
  case (Cons b bs)
  then show ?case by (cases k) (auto split: if_splits)
qed

lemma find_slot_lowest:
  assumes "j < length ss" "ss ! j \<le> la" "\<forall>k<j. la < ss ! k"
  shows "find_slot ss la = j"
proof -
  have "\<not> j < find_slot ss la" using find_slot_before[of j ss la] assms(2) by auto
  moreover have "\<not> find_slot ss la < j"
  proof
    assume a: "find_slot ss la < j"
    then have "find_slot ss la < length ss" using assms(1) by simp
    from find_slot_hit[OF this] assms(3) a show False by force
  qed
  ultimately show ?thesis by simp
qed

lemma find_slot_none:
  assumes "\<forall>j<length ss. la < ss ! j"
  shows "find_slot ss la = length ss"
proof (rule ccontr)
  assume "find_slot ss la \<noteq> length ss"
  then have l: "find_slot ss la < length ss" using find_slot_le[of ss la] by simp
  from find_slot_hit[OF l] assms l show False by force
qed

lemma stage3_loop_snoc:
  "stage3_loop ss (vs @ [v]) =
     (case stage3_loop ss vs of
        Inl e \<Rightarrow> Inl e
      | Inr (ss1, vs') \<Rightarrow>
          (case stage3_vreg ss1 v of
             Inl e \<Rightarrow> Inl e
           | Inr (ss2, v') \<Rightarrow> Inr (ss2, vs' @ [v'])))"
  by (induction vs arbitrary: ss) (auto split: sum.splits prod.splits)

lemma stage3_loop_append:
  "stage3_loop ss (xs @ ys) =
     (case stage3_loop ss xs of
        Inl e \<Rightarrow> Inl e
      | Inr (ss1, xs') \<Rightarrow>
          (case stage3_loop ss1 ys of
             Inl e \<Rightarrow> Inl e
           | Inr (ss2, ys') \<Rightarrow> Inr (ss2, xs' @ ys')))"
  by (induction xs arbitrary: ss) (auto split: sum.splits prod.splits)

lemma stage3_vreg_unused:
  "live_after v = - 1 \<Longrightarrow> stage3_vreg ss v = Inr (ss, v)"
  by (simp add: stage3_vreg_def)

lemma stage3_vreg_used:
  assumes "stage3_vreg ss v = Inr (ss1, v1)" and "live_after v \<noteq> - 1"
  shows "\<exists>j<length ss. ss1 = ss[j := dead_before v] \<and> v1 = v\<lparr>spill_offset := int j * 8\<rparr>
           \<and> ss ! j \<le> live_after v \<and> (\<forall>k<j. live_after v < ss ! k)"
proof -
  let ?j = "find_slot ss (live_after v)"
  from assms have l: "?j < length ss" and s: "ss1 = ss[?j := dead_before v]"
    and o: "v1 = v\<lparr>spill_offset := int ?j * 8\<rparr>"
    using find_slot_le[of ss "live_after v"]
    by (auto simp: stage3_vreg_def Let_def split: if_splits)
  from find_slot_hit[OF l] find_slot_before[of _ ss "live_after v"] l s o
  show ?thesis by blast
qed

lemma stage3_vreg_fails:
  assumes "stage3_vreg ss v = Inl e"
  shows "e = PanicSpillTooLow \<and> live_after v \<noteq> - 1 \<and> (\<forall>j<length ss. live_after v < ss ! j)"
proof -
  from assms have u: "live_after v \<noteq> - 1" and f: "find_slot ss (live_after v) = length ss"
    and e: "e = PanicSpillTooLow"
    by (auto simp: stage3_vreg_def Let_def split: if_splits)
  from find_slot_before[of _ ss "live_after v"] f u e show ?thesis by simp
qed

lemma busy_from_snoc_other:
  "\<not> assigned_to j v \<Longrightarrow> busy_from ss (vs @ [v]) j = busy_from ss vs j"
  by (simp add: busy_from_def)

lemma busy_from_snoc_same:
  "assigned_to j v \<Longrightarrow> busy_from ss (vs @ [v]) j = dead_before v"
  by (simp add: busy_from_def)

lemma stage3_loop_busy:
  assumes "stage3_loop ss vs = Inr (ss', vs')"
  shows "length ss' = length ss \<and> length vs' = length vs
         \<and> (\<forall>j<length ss. ss' ! j = busy_from ss vs' j)"
  using assms
proof (induction vs arbitrary: ss' vs' rule: rev_induct)
  case Nil
  then show ?case by (simp add: busy_from_def)
next
  case (snoc v vs)
  from snoc.prems obtain ss1 vs1 v1 where
    a: "stage3_loop ss vs = Inr (ss1, vs1)" and b: "stage3_vreg ss1 v = Inr (ss', v1)"
    and c: "vs' = vs1 @ [v1]"
    by (auto simp: stage3_loop_snoc split: sum.splits prod.splits)
  from snoc.IH[OF a] have l: "length ss1 = length ss" "length vs1 = length vs"
    and i: "\<forall>j<length ss. ss1 ! j = busy_from ss vs1 j" by simp_all
  show ?case
  proof (cases "live_after v = - 1")
    case True
    with b have "ss' = ss1" "v1 = v" by (simp_all add: stage3_vreg_def)
    with True l i c show ?thesis
      by (simp add: busy_from_snoc_other assigned_to_def)
  next
    case False
    from stage3_vreg_used[OF b False] obtain j0 where
      j0: "j0 < length ss1" "ss' = ss1[j0 := dead_before v]"
      "v1 = v\<lparr>spill_offset := int j0 * 8\<rparr>" by blast
    have "\<forall>j<length ss. ss' ! j = busy_from ss (vs1 @ [v1]) j"
    proof (intro allI impI)
      fix j assume j: "j < length ss"
      show "ss' ! j = busy_from ss (vs1 @ [v1]) j"
      proof (cases "j = j0")
        case True
        then have "assigned_to j v1" using j0(3) False by (simp add: assigned_to_def)
        from busy_from_snoc_same[OF this] j0 True show ?thesis by simp
      next
        case False
        then have "\<not> assigned_to j v1" using j0(3) by (simp add: assigned_to_def)
        from busy_from_snoc_other[OF this] j0 False i j show ?thesis by simp
      qed
    qed
    with l j0 c show ?thesis by simp
  qed
qed

lemma busy_from_zero:
  "j < N \<Longrightarrow> busy_from (replicate N 0) vs j = slot_busy vs j"
  by (simp add: busy_from_def slot_busy_def)

lemma stage3_loop_at:
  assumes "stage3_loop ss vs = Inr (ss', vs')" and "i < length vs"
  shows "\<exists>ssi ssi'. stage3_loop ss (take i vs) = Inr (ssi, take i vs')
           \<and> stage3_vreg ssi (vs ! i) = Inr (ssi', vs' ! i)"
proof -
  have d: "vs = take i vs @ (vs ! i) # drop (Suc i) vs"
    using assms(2) by (simp add: id_take_nth_drop)
  from assms(1) obtain ssi xs' ssi' v' ss2 ys' where
    a: "stage3_loop ss (take i vs) = Inr (ssi, xs')"
    and b: "stage3_vreg ssi (vs ! i) = Inr (ssi', v')"
    and c: "stage3_loop ssi' (drop (Suc i) vs) = Inr (ss2, ys')"
    and e: "vs' = xs' @ v' # ys'"
    by (subst (asm) d) (auto simp: stage3_loop_append split: sum.splits prod.splits)
  from stage3_loop_busy[OF a] assms(2) have "length xs' = i" by simp
  with e have "take i vs' = xs'" "vs' ! i = v'" by (auto simp: nth_append)
  with a b show ?thesis by blast
qed

lemma stage3_loop_fails:
  assumes "stage3_loop ss vs = Inl e"
  shows "\<exists>i<length vs. \<exists>ssi vp. stage3_loop ss (take i vs) = Inr (ssi, vp)
           \<and> stage3_vreg ssi (vs ! i) = Inl e"
  using assms
proof (induction vs rule: rev_induct)
  case Nil
  then show ?case by simp
next
  case (snoc v vs)
  show ?case
  proof (cases "stage3_loop ss vs")
    case (Inl e')
    with snoc.prems have "e' = e" by (simp add: stage3_loop_snoc)
    with Inl snoc.IH obtain i ssi vp where "i < length vs"
      "stage3_loop ss (take i vs) = Inr (ssi, vp)" "stage3_vreg ssi (vs ! i) = Inl e"
      by blast
    then show ?thesis by (intro exI[of _ i]) (auto simp: nth_append)
  next
    case (Inr p)
    obtain ss1 vs1 where p: "p = (ss1, vs1)" by (cases p)
    with Inr snoc.prems have "stage3_vreg ss1 v = Inl e"
      by (auto simp: stage3_loop_snoc split: sum.splits prod.splits)
    with Inr p show ?thesis by (intro exI[of _ "length vs"]) auto
  qed
qed

lemma stage3_result:
  assumes "stage3 N vi = Inr vi'" and "i < length vi"
  shows "(live_after (vi ! i) = - 1 \<longrightarrow> vi' ! i = vi ! i)
         \<and> (live_after (vi ! i) \<noteq> - 1 \<longrightarrow>
              (\<exists>j<N. vi' ! i = (vi ! i)\<lparr>spill_offset := int j * 8\<rparr>
                 \<and> slot_busy (take i vi') j \<le> live_after (vi ! i)
                 \<and> (\<forall>k<j. live_after (vi ! i) < slot_busy (take i vi') k)))"
proof -
  from assms(1) obtain ss' where run: "stage3_loop (replicate N 0) vi = Inr (ss', vi')"
    by (auto simp: stage3_def split: sum.splits prod.splits)
  from stage3_loop_at[OF run assms(2)] obtain ssi ssi' where
    a: "stage3_loop (replicate N 0) (take i vi) = Inr (ssi, take i vi')"
    and b: "stage3_vreg ssi (vi ! i) = Inr (ssi', vi' ! i)" by blast
  from stage3_loop_busy[OF a] have l: "length ssi = N"
    and bz: "\<forall>j<N. ssi ! j = slot_busy (take i vi') j"
    by (simp_all add: busy_from_zero)
  show ?thesis
  proof (intro conjI impI)
    assume "live_after (vi ! i) = - 1"
    with b show "vi' ! i = vi ! i" by (simp add: stage3_vreg_def)
  next
    assume u: "live_after (vi ! i) \<noteq> - 1"
    from stage3_vreg_used[OF b u] obtain j where
      j: "j < length ssi" "vi' ! i = (vi ! i)\<lparr>spill_offset := int j * 8\<rparr>"
      "ssi ! j \<le> live_after (vi ! i)" "\<forall>k<j. live_after (vi ! i) < ssi ! k" by blast
    have "\<forall>k<j. live_after (vi ! i) < slot_busy (take i vi') k"
      using j(1,4) l bz by auto
    with j l bz show "\<exists>j<N. vi' ! i = (vi ! i)\<lparr>spill_offset := int j * 8\<rparr>
                 \<and> slot_busy (take i vi') j \<le> live_after (vi ! i)
                 \<and> (\<forall>k<j. live_after (vi ! i) < slot_busy (take i vi') k)"
      by (intro exI[of _ j]) auto
  qed
qed

lemma stage3_failure:
  assumes "stage3 N vi = Inl e"
  shows "e = PanicSpillTooLow
         \<and> (\<exists>i<length vi. \<exists>vp. stage3 N (take i vi) = Inr vp
               \<and> live_after (vi ! i) \<noteq> - 1
               \<and> (\<forall>j<N. live_after (vi ! i) < slot_busy vp j))"
proof -
  from assms have "stage3_loop (replicate N 0) vi = Inl e"
    by (auto simp: stage3_def split: sum.splits prod.splits)
  from stage3_loop_fails[OF this] obtain i ssi vp where i: "i < length vi"
    and a: "stage3_loop (replicate N 0) (take i vi) = Inr (ssi, vp)"
    and b: "stage3_vreg ssi (vi ! i) = Inl e" by blast
  from stage3_loop_busy[OF a] have l: "length ssi = N"
    and bz: "\<forall>j<N. ssi ! j = slot_busy vp j"
    by (simp_all add: busy_from_zero)
  from stage3_vreg_fails[OF b] l bz
  have "e = PanicSpillTooLow" "live_after (vi ! i) \<noteq> - 1"
    "\<forall>j<N. live_after (vi ! i) < slot_busy vp j" by auto
  moreover from a have "stage3 N (take i vi) = Inr vp" by (simp add: stage3_def)
  ultimately show ?thesis using i by blast
qed


text \<open>
  C6. When stage 3 is not stopped, it returns a table of the same length in
  which every vreg with \<open>live_after = - 1\<close> is as it was, and every used vreg
  differs from what it was in its \<open>spill_offset\<close> only, which is \<open>j * 8\<close> for
  the lowest slot \<open>j\<close> below \<^verbatim>\<open>N_SPILL64S\<close> whose
  \<open>busy_until_before\<close> is at most the \<open>live_after\<close> of the vreg; here
  \<open>busy_until_before\<close> of a slot is the \<open>dead_before\<close> of the last vreg of
  lower index assigned to it, and 0 when there is none, so the vregs are taken
  in index order and each assignment sets the slot to the \<open>dead_before\<close> of its
  vreg. When stage 3 is stopped, the error is the panic
  \<^verbatim>\<open>N_SPILL64S is too low\<close>, and there is a used vreg for which, after the vregs
  before it have been handled, no slot qualifies. The same for one vreg and a
  given busy array: skipped if unused, first fit if a slot qualifies, the panic
  otherwise. The loop does nothing on an empty table, on a table extended by one
  vreg it runs on the table and then handles that vreg, and the stage runs it
  from \<^verbatim>\<open>N_SPILL64S\<close> zeros.
\<close>

theorem stage3_first_fit:
  "(stage3 N_SPILL64S vi = Inr vi' \<longrightarrow>
      length vi' = length vi
      \<and> (\<forall>i<length vi.
              (live_after (vi ! i) = - 1 \<longrightarrow> vi' ! i = vi ! i)
              \<and> (live_after (vi ! i) \<noteq> - 1 \<longrightarrow>
                   (\<exists>j<N_SPILL64S. vi' ! i = (vi ! i)\<lparr>spill_offset := int j * 8\<rparr>
                      \<and> slot_busy (take i vi') j \<le> live_after (vi ! i)
                      \<and> (\<forall>k<j. live_after (vi ! i) < slot_busy (take i vi') k)))))
   \<and> (stage3 N_SPILL64S vi = Inl e \<longrightarrow>
        e = PanicSpillTooLow
        \<and> (\<exists>i<length vi. \<exists>vp. stage3 N_SPILL64S (take i vi) = Inr vp
              \<and> live_after (vi ! i) \<noteq> - 1
              \<and> (\<forall>j<N_SPILL64S. live_after (vi ! i) < slot_busy vp j)))
   \<and> (live_after v = - 1 \<longrightarrow> stage3_vreg ss v = Inr (ss, v))
   \<and> (live_after v \<noteq> - 1 \<longrightarrow>
        (\<forall>j<length ss. ss ! j \<le> live_after v \<and> (\<forall>k<j. live_after v < ss ! k) \<longrightarrow>
           stage3_vreg ss v = Inr (ss[j := dead_before v], v\<lparr>spill_offset := int j * 8\<rparr>)))
   \<and> (live_after v \<noteq> - 1 \<and> (\<forall>j<length ss. live_after v < ss ! j) \<longrightarrow>
        stage3_vreg ss v = Inl PanicSpillTooLow)
   \<and> stage3_loop ss [] = Inr (ss, [])
   \<and> stage3_loop ss (vs @ [v]) =
       (case stage3_loop ss vs of
          Inl e \<Rightarrow> Inl e
        | Inr (ss1, vs') \<Rightarrow>
            (case stage3_vreg ss1 v of
               Inl e \<Rightarrow> Inl e
             | Inr (ss2, v') \<Rightarrow> Inr (ss2, vs' @ [v'])))
   \<and> stage3 N_SPILL64S vi =
       (case stage3_loop (replicate N_SPILL64S 0) vi of
          Inl e \<Rightarrow> Inl e
        | Inr (ss', vs') \<Rightarrow> Inr vs')"
proof (intro conjI impI)
  assume a: "stage3 N_SPILL64S vi = Inr vi'"
  then obtain ss' where "stage3_loop (replicate N_SPILL64S 0) vi = Inr (ss', vi')"
    by (auto simp: stage3_def split: sum.splits prod.splits)
  from stage3_loop_busy[OF this] show "length vi' = length vi" by simp
  show "(\<forall>i<length vi.
              (live_after (vi ! i) = - 1 \<longrightarrow> vi' ! i = vi ! i)
              \<and> (live_after (vi ! i) \<noteq> - 1 \<longrightarrow>
                   (\<exists>j<N_SPILL64S. vi' ! i = (vi ! i)\<lparr>spill_offset := int j * 8\<rparr>
                      \<and> slot_busy (take i vi') j \<le> live_after (vi ! i)
                      \<and> (\<forall>k<j. live_after (vi ! i) < slot_busy (take i vi') k))))"
    using stage3_result[OF a] by blast
next
  assume a: "stage3 N_SPILL64S vi = Inl e"
  from stage3_failure[OF a] show "e = PanicSpillTooLow" by blast
  from stage3_failure[OF a]
  show "\<exists>i<length vi. \<exists>vp. stage3 N_SPILL64S (take i vi) = Inr vp
              \<and> live_after (vi ! i) \<noteq> - 1
              \<and> (\<forall>j<N_SPILL64S. live_after (vi ! i) < slot_busy vp j)" by blast
next
  assume "live_after v = - 1"
  then show "stage3_vreg ss v = Inr (ss, v)" by (rule stage3_vreg_unused)
next
  assume u: "live_after v \<noteq> - 1"
  show "\<forall>j<length ss. ss ! j \<le> live_after v \<and> (\<forall>k<j. live_after v < ss ! k) \<longrightarrow>
           stage3_vreg ss v = Inr (ss[j := dead_before v], v\<lparr>spill_offset := int j * 8\<rparr>)"
  proof (intro allI impI)
    fix j
    assume j: "j < length ss"
      and h: "ss ! j \<le> live_after v \<and> (\<forall>k<j. live_after v < ss ! k)"
    have "find_slot ss (live_after v) = j" using find_slot_lowest[OF j] h by blast
    then show "stage3_vreg ss v = Inr (ss[j := dead_before v], v\<lparr>spill_offset := int j * 8\<rparr>)"
      using u j by (simp add: stage3_vreg_def)
  qed
next
  assume "live_after v \<noteq> - 1 \<and> (\<forall>j<length ss. live_after v < ss ! j)"
  then show "stage3_vreg ss v = Inl PanicSpillTooLow"
    using find_slot_none[of ss "live_after v"] by (simp add: stage3_vreg_def)
next
  show "stage3_loop ss [] = Inr (ss, [])" by simp
next
  show "stage3_loop ss (vs @ [v]) =
       (case stage3_loop ss vs of
          Inl e \<Rightarrow> Inl e
        | Inr (ss1, vs') \<Rightarrow>
            (case stage3_vreg ss1 v of
               Inl e \<Rightarrow> Inl e
             | Inr (ss2, v') \<Rightarrow> Inr (ss2, vs' @ [v'])))"
    by (rule stage3_loop_snoc)
next
  show "stage3 N_SPILL64S vi =
       (case stage3_loop (replicate N_SPILL64S 0) vi of
          Inl e \<Rightarrow> Inl e
        | Inr (ss', vs') \<Rightarrow> Inr vs')"
    by (simp add: stage3_def)
qed

theorem stage3_first_fit_witness:
  "stage3 2
     [\<lparr> live_after = 0, dead_before = 3, spill_offset = 0, spill_size = 0, has_preference = False, preferred_rreg = INVALID_HREG \<rparr>,
      \<lparr> live_after = - 1, dead_before = - 1, spill_offset = 0, spill_size = 0, has_preference = False, preferred_rreg = INVALID_HREG \<rparr>,
      \<lparr> live_after = 1, dead_before = 4, spill_offset = 0, spill_size = 0, has_preference = False, preferred_rreg = INVALID_HREG \<rparr>,
      \<lparr> live_after = 3, dead_before = 5, spill_offset = 0, spill_size = 0, has_preference = False, preferred_rreg = INVALID_HREG \<rparr>] =
   Inr
     [\<lparr> live_after = 0, dead_before = 3, spill_offset = 0, spill_size = 0, has_preference = False, preferred_rreg = INVALID_HREG \<rparr>,
      \<lparr> live_after = - 1, dead_before = - 1, spill_offset = 0, spill_size = 0, has_preference = False, preferred_rreg = INVALID_HREG \<rparr>,
      \<lparr> live_after = 1, dead_before = 4, spill_offset = 8, spill_size = 0, has_preference = False, preferred_rreg = INVALID_HREG \<rparr>,
      \<lparr> live_after = 3, dead_before = 5, spill_offset = 0, spill_size = 0, has_preference = False, preferred_rreg = INVALID_HREG \<rparr>]
   \<and> slot_busy
        (take 3
          [\<lparr> live_after = 0, dead_before = 3, spill_offset = 0, spill_size = 0, has_preference = False, preferred_rreg = INVALID_HREG \<rparr>,
      \<lparr> live_after = - 1, dead_before = - 1, spill_offset = 0, spill_size = 0, has_preference = False, preferred_rreg = INVALID_HREG \<rparr>,
      \<lparr> live_after = 1, dead_before = 4, spill_offset = 8, spill_size = 0, has_preference = False, preferred_rreg = INVALID_HREG \<rparr>,
      \<lparr> live_after = 3, dead_before = 5, spill_offset = 0, spill_size = 0, has_preference = False, preferred_rreg = INVALID_HREG \<rparr>]) 0 = 3
   \<and> slot_busy
        (take 3
          [\<lparr> live_after = 0, dead_before = 3, spill_offset = 0, spill_size = 0, has_preference = False, preferred_rreg = INVALID_HREG \<rparr>,
      \<lparr> live_after = - 1, dead_before = - 1, spill_offset = 0, spill_size = 0, has_preference = False, preferred_rreg = INVALID_HREG \<rparr>,
      \<lparr> live_after = 1, dead_before = 4, spill_offset = 8, spill_size = 0, has_preference = False, preferred_rreg = INVALID_HREG \<rparr>,
      \<lparr> live_after = 3, dead_before = 5, spill_offset = 0, spill_size = 0, has_preference = False, preferred_rreg = INVALID_HREG \<rparr>]) 1 = 4
   \<and> (\<exists>j<2.
        [\<lparr> live_after = 0, dead_before = 3, spill_offset = 0, spill_size = 0, has_preference = False, preferred_rreg = INVALID_HREG \<rparr>,
      \<lparr> live_after = - 1, dead_before = - 1, spill_offset = 0, spill_size = 0, has_preference = False, preferred_rreg = INVALID_HREG \<rparr>,
      \<lparr> live_after = 1, dead_before = 4, spill_offset = 8, spill_size = 0, has_preference = False, preferred_rreg = INVALID_HREG \<rparr>,
      \<lparr> live_after = 3, dead_before = 5, spill_offset = 0, spill_size = 0, has_preference = False, preferred_rreg = INVALID_HREG \<rparr>] ! 3 =
          ([\<lparr> live_after = 0, dead_before = 3, spill_offset = 0, spill_size = 0, has_preference = False, preferred_rreg = INVALID_HREG \<rparr>,
      \<lparr> live_after = - 1, dead_before = - 1, spill_offset = 0, spill_size = 0, has_preference = False, preferred_rreg = INVALID_HREG \<rparr>,
      \<lparr> live_after = 1, dead_before = 4, spill_offset = 0, spill_size = 0, has_preference = False, preferred_rreg = INVALID_HREG \<rparr>,
      \<lparr> live_after = 3, dead_before = 5, spill_offset = 0, spill_size = 0, has_preference = False, preferred_rreg = INVALID_HREG \<rparr>] ! 3)\<lparr>spill_offset := int j * 8\<rparr>
        \<and> slot_busy
            (take 3
              [\<lparr> live_after = 0, dead_before = 3, spill_offset = 0, spill_size = 0, has_preference = False, preferred_rreg = INVALID_HREG \<rparr>,
      \<lparr> live_after = - 1, dead_before = - 1, spill_offset = 0, spill_size = 0, has_preference = False, preferred_rreg = INVALID_HREG \<rparr>,
      \<lparr> live_after = 1, dead_before = 4, spill_offset = 8, spill_size = 0, has_preference = False, preferred_rreg = INVALID_HREG \<rparr>,
      \<lparr> live_after = 3, dead_before = 5, spill_offset = 0, spill_size = 0, has_preference = False, preferred_rreg = INVALID_HREG \<rparr>]) j \<le> 3)
   \<and> live_after \<lparr> live_after = 2, dead_before = 7, spill_offset = 0, spill_size = 0, has_preference = False, preferred_rreg = INVALID_HREG \<rparr> \<noteq> - 1
   \<and> (1::nat) < length [5, 0 :: int] \<and> [5, 0 :: int] ! 1 \<le> 2 \<and> 2 < [5, 0 :: int] ! 0
   \<and> stage3_vreg [5, 0]
        \<lparr> live_after = 2, dead_before = 7, spill_offset = 0, spill_size = 0, has_preference = False, preferred_rreg = INVALID_HREG \<rparr> =
       Inr ([5, 7],
        \<lparr> live_after = 2, dead_before = 7, spill_offset = 8, spill_size = 0, has_preference = False, preferred_rreg = INVALID_HREG \<rparr>)"
proof -
  let ?vi = "[\<lparr> live_after = 0, dead_before = 3, spill_offset = 0, spill_size = 0, has_preference = False, preferred_rreg = INVALID_HREG \<rparr>,
      \<lparr> live_after = - 1, dead_before = - 1, spill_offset = 0, spill_size = 0, has_preference = False, preferred_rreg = INVALID_HREG \<rparr>,
      \<lparr> live_after = 1, dead_before = 4, spill_offset = 0, spill_size = 0, has_preference = False, preferred_rreg = INVALID_HREG \<rparr>,
      \<lparr> live_after = 3, dead_before = 5, spill_offset = 0, spill_size = 0, has_preference = False, preferred_rreg = INVALID_HREG \<rparr>]"
  let ?vi' = "[\<lparr> live_after = 0, dead_before = 3, spill_offset = 0, spill_size = 0, has_preference = False, preferred_rreg = INVALID_HREG \<rparr>,
      \<lparr> live_after = - 1, dead_before = - 1, spill_offset = 0, spill_size = 0, has_preference = False, preferred_rreg = INVALID_HREG \<rparr>,
      \<lparr> live_after = 1, dead_before = 4, spill_offset = 8, spill_size = 0, has_preference = False, preferred_rreg = INVALID_HREG \<rparr>,
      \<lparr> live_after = 3, dead_before = 5, spill_offset = 0, spill_size = 0, has_preference = False, preferred_rreg = INVALID_HREG \<rparr>]"
  let ?v = "\<lparr> live_after = 2, dead_before = 7, spill_offset = 0, spill_size = 0, has_preference = False, preferred_rreg = INVALID_HREG \<rparr>"
  note t = stage3_first_fit[where N_SPILL64S = 2 and vi = ?vi and vi' = ?vi'
      and v = ?v and ss = "[5, 0]"]
  have run: "stage3 2 ?vi = Inr ?vi'"
    by (simp add: stage3_def stage3_vreg_def numeral_2_eq_2)
  have sb: "slot_busy (take 3 ?vi') 0 = 3" "slot_busy (take 3 ?vi') 1 = 4"
    by (simp_all add: slot_busy_def assigned_to_def numeral_3_eq_3)
  from t[THEN conjunct1, rule_format, OF run, THEN conjunct2, rule_format, of 3]
  have "\<exists>j<2. ?vi' ! 3 = (?vi ! 3)\<lparr>spill_offset := int j * 8\<rparr>
        \<and> slot_busy (take 3 ?vi') j \<le> live_after (?vi ! 3)
        \<and> (\<forall>k<j. live_after (?vi ! 3) < slot_busy (take 3 ?vi') k)"
    by simp
  then have ex: "\<exists>j<2. ?vi' ! 3 = (?vi ! 3)\<lparr>spill_offset := int j * 8\<rparr>
        \<and> slot_busy (take 3 ?vi') j \<le> 3"
    by auto
  have a: "live_after ?v \<noteq> - 1" by simp
  have b: "(1::nat) < length [5, 0 :: int]" by simp
  have c: "[5, 0 :: int] ! 1 \<le> live_after ?v \<and> (\<forall>k<1. live_after ?v < [5, 0 :: int] ! k)"
    by simp
  from t[THEN conjunct2, THEN conjunct2, THEN conjunct2, THEN conjunct1] a b c
  have st: "stage3_vreg [5, 0] ?v =
          Inr ([5, 0][1 := dead_before ?v], ?v\<lparr>spill_offset := int 1 * 8\<rparr>)"
    by blast
  from run sb ex st show ?thesis by simp
qed

lemma stage3_vreg_facts:
  assumes "stage3_vreg ss v = Inr (ss1, v1)"
  shows "length ss1 = length ss" "live_after v1 = live_after v" "dead_before v1 = dead_before v"
  using assms by (auto simp: stage3_vreg_def Let_def split: if_splits)

lemma stage3_vreg_mono:
  assumes "stage3_vreg ss v = Inr (ss1, v1)"
    and "vreg_used v \<longrightarrow> live_after v \<le> dead_before v"
    and "j < length ss"
  shows "ss ! j \<le> ss1 ! j"
proof (cases "live_after v = - 1")
  case True
  with assms(1) show ?thesis by (simp add: stage3_vreg_def)
next
  case False
  let ?j = "find_slot ss (live_after v)"
  from False assms(1) have l: "?j < length ss" and s: "ss1 = ss[?j := dead_before v]"
    using find_slot_le[of ss "live_after v"]
    by (auto simp: stage3_vreg_def Let_def split: if_splits)
  have "ss ! ?j \<le> dead_before v"
    using find_slot_hit[OF l] assms(2) False by (simp add: vreg_used_def)
  then show ?thesis using s assms(3) by (cases "j = ?j") simp_all
qed

lemma stage3_vreg_slot:
  assumes "stage3_vreg ss v = Inr (ss1, v1)" and "vreg_used v"
  shows "\<exists>j<length ss. spill_offset v1 = int j * 8 \<and> ss ! j \<le> live_after v
           \<and> ss1 ! j = dead_before v"
proof -
  let ?j = "find_slot ss (live_after v)"
  from assms have l: "?j < length ss" and s: "ss1 = ss[?j := dead_before v]"
    and o: "spill_offset v1 = int ?j * 8"
    using find_slot_le[of ss "live_after v"]
    by (auto simp: stage3_vreg_def vreg_used_def Let_def split: if_splits)
  from find_slot_hit[OF l] l s o show ?thesis by auto
qed

lemma stage3_loop_facts:
  assumes "stage3_loop ss vs = Inr (ss', vs')"
  shows "length ss' = length ss \<and> length vs' = length vs
       \<and> (\<forall>k<length vs. live_after (vs' ! k) = live_after (vs ! k)
                         \<and> dead_before (vs' ! k) = dead_before (vs ! k))"
  using assms
proof (induction vs arbitrary: ss ss' vs')
  case Nil
  then show ?case by simp
next
  case (Cons v vs)
  from Cons.prems obtain ss1 v1 vs1 where
    a: "stage3_vreg ss v = Inr (ss1, v1)" and b: "stage3_loop ss1 vs = Inr (ss', vs1)"
    and c: "vs' = v1 # vs1"
    by (auto split: sum.splits prod.splits)
  from Cons.IH[OF b] stage3_vreg_facts[OF a] c show ?case
    by (auto simp: nth_Cons split: nat.splits)
qed

lemma stage3_loop_mono:
  assumes "stage3_loop ss vs = Inr (ss', vs')"
    and "\<forall>v\<in>set vs. vreg_used v \<longrightarrow> live_after v \<le> dead_before v"
    and "j < length ss"
  shows "ss ! j \<le> ss' ! j"
  using assms
proof (induction vs arbitrary: ss ss' vs')
  case Nil
  then show ?case by simp
next
  case (Cons v vs)
  from Cons.prems(1) obtain ss1 v1 vs1 where
    a: "stage3_vreg ss v = Inr (ss1, v1)" and b: "stage3_loop ss1 vs = Inr (ss', vs1)"
    by (auto split: sum.splits prod.splits)
  have "ss ! j \<le> ss1 ! j"
    using stage3_vreg_mono[OF a _ Cons.prems(3)] Cons.prems(2) by simp
  moreover have "ss1 ! j \<le> ss' ! j"
    using Cons.IH[OF b] Cons.prems(2,3) stage3_vreg_facts(1)[OF a] by simp
  ultimately show ?case by simp
qed

lemma stage3_loop_slot:
  assumes "stage3_loop ss vs = Inr (ss', vs')"
    and "\<forall>v\<in>set vs. vreg_used v \<longrightarrow> live_after v \<le> dead_before v"
    and "k < length vs" and "vreg_used (vs ! k)"
  shows "\<exists>j<length ss. spill_offset (vs' ! k) = int j * 8 \<and> ss ! j \<le> live_after (vs ! k)"
  using assms
proof (induction vs arbitrary: ss ss' vs' k)
  case Nil
  then show ?case by simp
next
  case (Cons v vs)
  from Cons.prems(1) obtain ss1 v1 vs1 where
    a: "stage3_vreg ss v = Inr (ss1, v1)" and b: "stage3_loop ss1 vs = Inr (ss', vs1)"
    and c: "vs' = v1 # vs1"
    by (auto split: sum.splits prod.splits)
  show ?case
  proof (cases k)
    case 0
    with Cons.prems(4) have "vreg_used v" by simp
    from stage3_vreg_slot[OF a this] 0 c show ?thesis by auto
  next
    case (Suc k')
    with Cons.prems have k': "k' < length vs" "vreg_used (vs ! k')"
      and r: "\<forall>v\<in>set vs. vreg_used v \<longrightarrow> live_after v \<le> dead_before v"
      by simp_all
    from Cons.IH[OF b r k'] obtain j where
      j: "j < length ss1" "spill_offset (vs1 ! k') = int j * 8" "ss1 ! j \<le> live_after (vs ! k')"
      by blast
    have l: "length ss1 = length ss" by (rule stage3_vreg_facts(1)[OF a])
    have "ss ! j \<le> ss1 ! j"
      using stage3_vreg_mono[OF a, of j] Cons.prems(2) j(1) l by simp
    with j l Suc c show ?thesis by auto
  qed
qed

lemma stage3_loop_disjoint:
  assumes "stage3_loop ss vs = Inr (ss', vs')"
    and "\<forall>v\<in>set vs. vreg_used v \<longrightarrow> live_after v \<le> dead_before v"
    and "i < k" and "k < length vs" and "vreg_used (vs ! i)" and "vreg_used (vs ! k)"
    and "spill_offset (vs' ! i) = spill_offset (vs' ! k)"
  shows "dead_before (vs ! i) \<le> live_after (vs ! k)"
  using assms
proof (induction vs arbitrary: ss ss' vs' i k)
  case Nil
  then show ?case by simp
next
  case (Cons v vs)
  from Cons.prems(1) obtain ss1 v1 vs1 where
    a: "stage3_vreg ss v = Inr (ss1, v1)" and b: "stage3_loop ss1 vs = Inr (ss', vs1)"
    and c: "vs' = v1 # vs1"
    by (auto split: sum.splits prod.splits)
  have r: "\<forall>v\<in>set vs. vreg_used v \<longrightarrow> live_after v \<le> dead_before v"
    using Cons.prems(2) by simp
  from Cons.prems(3) obtain k' where k: "k = Suc k'" by (cases k) auto
  with Cons.prems have k': "k' < length vs" "vreg_used (vs ! k')" by simp_all
  show ?case
  proof (cases i)
    case 0
    with Cons.prems(5) have "vreg_used v" by simp
    from stage3_vreg_slot[OF a this] obtain j0 where
      j0: "spill_offset v1 = int j0 * 8" "ss1 ! j0 = dead_before v" by blast
    from stage3_loop_slot[OF b r k'] obtain j where
      j: "spill_offset (vs1 ! k') = int j * 8" "ss1 ! j \<le> live_after (vs ! k')" by blast
    from Cons.prems(7) 0 k c j0(1) j(1) have "j = j0" by simp
    with j0(2) j(2) 0 k show ?thesis by simp
  next
    case (Suc i')
    with Cons.prems k c have "i' < k'" "vreg_used (vs ! i')"
      "spill_offset (vs1 ! i') = spill_offset (vs1 ! k')" by simp_all
    from Cons.IH[OF b r this(1) k'(1) this(2) k'(2) this(3)] Suc k show ?thesis by simp
  qed
qed

lemma stage3_separates:
  assumes "stage3 N vi = Inr vi'"
    and "\<forall>k<length vi. vreg_used (vi ! k) \<longrightarrow> live_after (vi ! k) \<le> dead_before (vi ! k)"
    and "i < length vi" and "k < length vi" and "i \<noteq> k"
    and "vreg_used (vi ! i)" and "vreg_used (vi ! k)"
    and "ranges_overlap (vi ! i) (vi ! k)"
  shows "spill_offset (vi' ! i) \<noteq> spill_offset (vi' ! k)"
proof
  assume eq: "spill_offset (vi' ! i) = spill_offset (vi' ! k)"
  from assms(1) obtain ss' where run: "stage3_loop (replicate N 0) vi = Inr (ss', vi')"
    by (auto simp: stage3_def split: sum.splits prod.splits)
  have r: "\<forall>v\<in>set vi. vreg_used v \<longrightarrow> live_after v \<le> dead_before v"
    using assms(2) by (auto simp: in_set_conv_nth)
  consider "i < k" | "k < i" using assms(5) by linarith
  then show False
  proof cases
    case 1
    from stage3_loop_disjoint[OF run r 1 assms(4,6,7) eq] assms(8)
    show False by (simp add: ranges_overlap_def)
  next
    case 2
    from stage3_loop_disjoint[OF run r 2 assms(3,7,6) eq[symmetric]] assms(8)
    show False by (simp add: ranges_overlap_def)
  qed
qed

text \<open>
  C7. When every used vreg has \<open>live_after < dead_before\<close> and \<open>live_after\<close>
  does not decrease along the indices of the used vregs, two distinct used vregs
  whose ranges overlap get different spill offsets from stage 3. The lemma
  \<open>stage3_separates\<close> above shows that \<open>live_after \<le> dead_before\<close> alone is
  enough for this.
\<close>

theorem stage3_overlapping_vregs_differ:
  assumes "stage3 N vi = Inr vi'"
    and "\<forall>k<length vi. vreg_used (vi ! k) \<longrightarrow> live_after (vi ! k) < dead_before (vi ! k)"
    and "\<forall>i k. i < k \<and> k < length vi \<and> vreg_used (vi ! i) \<and> vreg_used (vi ! k) \<longrightarrow>
            live_after (vi ! i) \<le> live_after (vi ! k)"
    and "i < length vi" and "k < length vi" and "i \<noteq> k"
    and "vreg_used (vi ! i)" and "vreg_used (vi ! k)"
    and "ranges_overlap (vi ! i) (vi ! k)"
  shows "spill_offset (vi' ! i) \<noteq> spill_offset (vi' ! k)"
proof -
  have "\<forall>k<length vi. vreg_used (vi ! k) \<longrightarrow> live_after (vi ! k) \<le> dead_before (vi ! k)"
    using assms(2) by force
  from stage3_separates[OF assms(1) this assms(4-9)] show ?thesis .
qed


theorem stage3_overlapping_vregs_differ_witness:
  "stage3 2
     [\<lparr> live_after = 0, dead_before = 3, spill_offset = 0, spill_size = 0,
         has_preference = False, preferred_rreg = INVALID_HREG \<rparr>,
      \<lparr> live_after = 1, dead_before = 4, spill_offset = 0, spill_size = 0,
         has_preference = False, preferred_rreg = INVALID_HREG \<rparr>] =
   Inr
     [\<lparr> live_after = 0, dead_before = 3, spill_offset = 0, spill_size = 0,
         has_preference = False, preferred_rreg = INVALID_HREG \<rparr>,
      \<lparr> live_after = 1, dead_before = 4, spill_offset = 8, spill_size = 0,
         has_preference = False, preferred_rreg = INVALID_HREG \<rparr>]
   \<and> ranges_overlap
       \<lparr> live_after = 0, dead_before = 3, spill_offset = 0, spill_size = 0,
         has_preference = False, preferred_rreg = INVALID_HREG \<rparr>
       \<lparr> live_after = 1, dead_before = 4, spill_offset = 0, spill_size = 0,
         has_preference = False, preferred_rreg = INVALID_HREG \<rparr>
   \<and> spill_offset
       ([\<lparr> live_after = 0, dead_before = 3, spill_offset = 0, spill_size = 0,
           has_preference = False, preferred_rreg = INVALID_HREG \<rparr>,
         \<lparr> live_after = 1, dead_before = 4, spill_offset = 8, spill_size = 0,
           has_preference = False, preferred_rreg = INVALID_HREG \<rparr>] ! 0)
     \<noteq> spill_offset
       ([\<lparr> live_after = 0, dead_before = 3, spill_offset = 0, spill_size = 0,
           has_preference = False, preferred_rreg = INVALID_HREG \<rparr>,
         \<lparr> live_after = 1, dead_before = 4, spill_offset = 8, spill_size = 0,
           has_preference = False, preferred_rreg = INVALID_HREG \<rparr>] ! 1)"
proof -
  let ?a = "\<lparr> live_after = 0, dead_before = 3, spill_offset = 0, spill_size = 0,
         has_preference = False, preferred_rreg = INVALID_HREG \<rparr>"
  let ?b = "\<lparr> live_after = 1, dead_before = 4, spill_offset = 0, spill_size = 0,
         has_preference = False, preferred_rreg = INVALID_HREG \<rparr>"
  let ?vi = "[?a, ?b]"
  let ?vi' = "[?a, ?b\<lparr>spill_offset := 8\<rparr>]"
  have run: "stage3 2 ?vi = Inr ?vi'"
    by (simp add: stage3_def stage3_vreg_def numeral_2_eq_2)
  have h2: "\<forall>k<length ?vi. vreg_used (?vi ! k) \<longrightarrow> live_after (?vi ! k) < dead_before (?vi ! k)"
    by (simp add: less_Suc_eq)
  have h3: "\<forall>i k. i < k \<and> k < length ?vi \<and> vreg_used (?vi ! i) \<and> vreg_used (?vi ! k) \<longrightarrow>
            live_after (?vi ! i) \<le> live_after (?vi ! k)"
    by (auto simp: less_Suc_eq)
  have ov: "ranges_overlap (?vi ! 0) (?vi ! 1)" by (simp add: ranges_overlap_def)
  have u: "vreg_used (?vi ! 0)" "vreg_used (?vi ! 1)" by (simp_all add: vreg_used_def)
  have "spill_offset (?vi' ! 0) \<noteq> spill_offset (?vi' ! 1)"
    by (rule stage3_overlapping_vregs_differ[OF run h2 h3 _ _ _ u ov]) simp_all
  with run ov show ?thesis by simp
qed

section \<open>Stage 1 stops at a first event that is not a Write\<close>

text \<open>
  An entry of \<^verbatim>\<open>vreg_info\<close> keeps \<open>live_after = - 1\<close> as long as the scan has
  met no mention of its vreg, and loses it for good at the first one. So a Read
  or Modify that is the first mention of a vreg stops the scan with the panic of
  its mode, provided nothing stopped the scan before, and a Read or Modify of a
  vreg mentioned before does not stop it.
\<close>

lemma stage1_insn_append:
  "stage1_insn n ii vi (u1 @ u2) =
     (case stage1_insn n ii vi u1 of Inl e \<Rightarrow> Inl e | Inr vi' \<Rightarrow> stage1_insn n ii vi' u2)"
  by (induction u1 arbitrary: vi) (auto split: sum.splits)

lemma stage1_loop_append:
  "stage1_loop g n ii vi (xs @ ys) =
     (case stage1_loop g n ii vi xs of
        Inl e \<Rightarrow> Inl e
      | Inr vi' \<Rightarrow> stage1_loop g n (ii + int (length xs)) vi' ys)"
  by (induction xs arbitrary: vi ii) (auto split: sum.splits simp: add.assoc)

lemma stage1_mention_other:
  assumes "stage1_mention n ii vi (h, m) = Inr vi'"
    and "\<not> (hregIsVirtual h \<and> hregNumber h = int k)"
  shows "vi' ! k = vi ! k"
proof (cases "hregIsVirtual h")
  case False
  with assms(1) show ?thesis by simp
next
  case True
  with assms(2) have "hregNumber h \<noteq> int k" by simp
  moreover from True assms(1) have "0 \<le> hregNumber h"
    by (auto simp: Let_def split: if_splits)
  ultimately have "nat (hregNumber h) \<noteq> k" by linarith
  with True assms(1) show ?thesis
    by (auto simp: Let_def split: if_splits HRegMode.splits)
qed

lemma stage1_insn_other:
  assumes "stage1_insn n ii vi u = Inr vi'" and "\<not> mentions_vreg (int k) u"
  shows "vi' ! k = vi ! k"
  using assms
proof (induction u arbitrary: vi)
  case Nil
  then show ?case by simp
next
  case (Cons hm u)
  obtain h m where hm: "hm = (h, m)" by (cases hm)
  from Cons.prems(1) obtain vi1 where a: "stage1_mention n ii vi (h, m) = Inr vi1"
    and b: "stage1_insn n ii vi1 u = Inr vi'"
    unfolding hm by (auto split: sum.splits)
  from Cons.prems(2) have c: "\<not> (hregIsVirtual h \<and> hregNumber h = int k)"
    and d: "\<not> mentions_vreg (int k) u"
    unfolding hm by (auto simp: mentions_vreg_def)
  from stage1_mention_other[OF a c] Cons.IH[OF b d] show ?case by simp
qed

lemma stage1_loop_other:
  assumes "stage1_loop g n ii vi xs = Inr vi'"
    and "\<forall>x\<in>set xs. \<not> mentions_vreg (int k) (g x)"
  shows "vi' ! k = vi ! k"
  using assms
proof (induction xs arbitrary: vi ii)
  case Nil
  then show ?case by simp
next
  case (Cons x xs)
  from Cons.prems(1) obtain vi1 where a: "stage1_insn n ii vi (g x) = Inr vi1"
    and b: "stage1_loop g n (ii + 1) vi1 xs = Inr vi'"
    by (auto split: sum.splits)
  from stage1_insn_other[OF a] Cons.IH[OF b] Cons.prems(2) show ?case by simp
qed

lemma stage1_first_event_panics:
  assumes "hregIsVirtual h" and "0 \<le> hregNumber h" and "hregNumber h < n_vregs"
    and "m \<noteq> HRmWrite"
    and "\<forall>x\<in>set pre. \<not> mentions_vreg (hregNumber h) (getRegUsage x)"
    and "getRegUsage x = u1 @ (h, m) # u2" and "\<not> mentions_vreg (hregNumber h) u1"
    and "stage1 getRegUsage pre n_vregs = Inr vi"
    and "stage1_insn n_vregs (int (length pre)) vi u1 = Inr vi1"
  shows "stage1 getRegUsage (pre @ x # post) n_vregs =
           Inl (if m = HRmRead then PanicVregFirstRead else PanicVregFirstModify)"
proof -
  let ?k = "nat (hregNumber h)"
  let ?vi0 = "vreg_info_init n_vregs"
  have ik: "int ?k = hregNumber h" using assms(2) by simp
  have run: "stage1_loop getRegUsage n_vregs 0 ?vi0 pre = Inr vi"
    using assms(8) by (simp add: stage1_def)
  have "live_after (?vi0 ! ?k) = - 1"
    using assms(2,3) by (simp add: vreg_info_init_def)
  moreover have "vi ! ?k = ?vi0 ! ?k"
    using stage1_loop_other[OF run, of ?k] assms(5) ik by simp
  moreover have "vi1 ! ?k = vi ! ?k"
    using stage1_insn_other[OF assms(9), of ?k] assms(7) ik by simp
  ultimately have "live_after (vi1 ! ?k) = - 1" by simp
  then have "stage1_mention n_vregs (int (length pre)) vi1 (h, m) =
               Inl (if m = HRmRead then PanicVregFirstRead else PanicVregFirstModify)"
    using assms(1-4) by (cases m) (simp_all add: Let_def)
  then have "stage1_insn n_vregs (int (length pre)) vi (getRegUsage x) =
               Inl (if m = HRmRead then PanicVregFirstRead else PanicVregFirstModify)"
    using assms(9) by (simp add: assms(6) stage1_insn_append)
  then show ?thesis
    using run by (simp add: stage1_def stage1_loop_append)
qed

lemma stage1_mention_live:
  assumes "stage1_mention n ii vi (h, m) = Inr vi'" and "0 \<le> ii" and "k < length vi"
    and "length vi = nat n"
    and "(hregIsVirtual h \<and> hregNumber h = int k) \<or> live_after (vi ! k) \<noteq> - 1"
  shows "live_after (vi' ! k) \<noteq> - 1"
  using assms
  by (cases m) (auto simp: Let_def nth_list_update split: if_splits)

lemma stage1_insn_live:
  assumes "stage1_insn n ii vi u = Inr vi'" and "0 \<le> ii" and "k < length vi"
    and "length vi = nat n"
    and "mentions_vreg (int k) u \<or> live_after (vi ! k) \<noteq> - 1"
  shows "live_after (vi' ! k) \<noteq> - 1"
  using assms
proof (induction u arbitrary: vi)
  case Nil
  then show ?case by (simp add: mentions_vreg_def)
next
  case (Cons hm u)
  obtain h m where hm: "hm = (h, m)" by (cases hm)
  from Cons.prems(1) obtain vi1 where a: "stage1_mention n ii vi (h, m) = Inr vi1"
    and b: "stage1_insn n ii vi1 u = Inr vi'"
    unfolding hm by (auto split: sum.splits)
  have l: "length vi1 = length vi" by (rule stage1_mention_length[OF a])
  have "mentions_vreg (int k) u \<or> live_after (vi1 ! k) \<noteq> - 1"
  proof (cases "mentions_vreg (int k) u")
    case True
    then show ?thesis by simp
  next
    case False
    with Cons.prems(5) have "(hregIsVirtual h \<and> hregNumber h = int k) \<or> live_after (vi ! k) \<noteq> - 1"
      unfolding hm by (auto simp: mentions_vreg_def)
    from stage1_mention_live[OF a Cons.prems(2,3,4) this] show ?thesis by simp
  qed
  with Cons.IH[OF b Cons.prems(2)] l Cons.prems(3,4) show ?case by simp
qed

lemma stage1_loop_live:
  assumes "stage1_loop g n ii vi xs = Inr vi'" and "0 \<le> ii" and "k < length vi"
    and "length vi = nat n"
    and "(\<exists>x\<in>set xs. mentions_vreg (int k) (g x)) \<or> live_after (vi ! k) \<noteq> - 1"
  shows "live_after (vi' ! k) \<noteq> - 1"
  using assms
proof (induction xs arbitrary: vi ii)
  case Nil
  then show ?case by simp
next
  case (Cons x xs)
  from Cons.prems(1) obtain vi1 where a: "stage1_insn n ii vi (g x) = Inr vi1"
    and b: "stage1_loop g n (ii + 1) vi1 xs = Inr vi'"
    by (auto split: sum.splits)
  have l: "length vi1 = length vi" by (rule stage1_insn_length[OF a])
  have "(\<exists>x\<in>set xs. mentions_vreg (int k) (g x)) \<or> live_after (vi1 ! k) \<noteq> - 1"
  proof (cases "\<exists>x\<in>set xs. mentions_vreg (int k) (g x)")
    case True
    then show ?thesis by simp
  next
    case False
    with Cons.prems(5) have "mentions_vreg (int k) (g x) \<or> live_after (vi ! k) \<noteq> - 1"
      by auto
    from stage1_insn_live[OF a Cons.prems(2,3,4) this] show ?thesis by simp
  qed
  with Cons.IH[OF b, of ] l Cons.prems(2,3,4) show ?case by simp
qed

lemma stage1_later_mentions_pass:
  assumes "hregIsVirtual h" and "0 \<le> hregNumber h" and "hregNumber h < n_vregs"
    and "(\<exists>x\<in>set pre. mentions_vreg (hregNumber h) (getRegUsage x))
         \<or> mentions_vreg (hregNumber h) u1"
    and "stage1 getRegUsage pre n_vregs = Inr vi"
    and "stage1_insn n_vregs (int (length pre)) vi u1 = Inr vi1"
  shows "\<exists>vi2. stage1_mention n_vregs (int (length pre)) vi1 (h, m) = Inr vi2"
proof -
  let ?k = "nat (hregNumber h)"
  let ?vi0 = "vreg_info_init n_vregs"
  have ik: "int ?k = hregNumber h" using assms(2) by simp
  have run: "stage1_loop getRegUsage n_vregs 0 ?vi0 pre = Inr vi"
    using assms(5) by (simp add: stage1_def)
  have l0: "length ?vi0 = nat n_vregs" by (simp add: vreg_info_init_def)
  have l: "length vi = nat n_vregs" using stage1_loop_length[OF run] l0 by simp
  have k: "?k < nat n_vregs" using assms(2,3) by simp
  have "live_after (vi1 ! ?k) \<noteq> - 1"
  proof (cases "mentions_vreg (hregNumber h) u1")
    case True
    from stage1_insn_live[OF assms(6) _ _ l, of ?k] True k l ik show ?thesis by simp
  next
    case False
    with assms(4) have "\<exists>x\<in>set pre. mentions_vreg (int ?k) (getRegUsage x)" using ik by simp
    from stage1_loop_live[OF run _ _ l0, of ?k] this k l0
    have "live_after (vi ! ?k) \<noteq> - 1" by simp
    from stage1_insn_live[OF assms(6) _ _ l, of ?k] this k l show ?thesis by simp
  qed
  then show ?thesis using assms(1-3) by (cases m) (simp_all add: Let_def)
qed

section \<open>Stage 2 keeps no list of ranges\<close>

text \<open>
  No statement of stage 2 advances \<^verbatim>\<open>rreg_info_used\<close>: every flush stores at
  index 0, and the list \<^verbatim>\<open>rreg_info[0 .. rreg_info_used)\<close> that stage 5 reads is
  empty however the stage ends.
\<close>

lemma stage2_mention_used:
  "stage2_mention avail ii st hm = Inr st' \<Longrightarrow> rreg_info_used st' = rreg_info_used st"
  by (cases hm) (auto simp: Let_def split: if_splits HRegMode.splits)

lemma stage2_insn_used:
  "stage2_insn avail ii st u = Inr st' \<Longrightarrow> rreg_info_used st' = rreg_info_used st"
  by (induction u arbitrary: st) (auto split: sum.splits dest: stage2_mention_used)

lemma stage2_loop_used:
  "stage2_loop g avail ii st xs = Inr st' \<Longrightarrow> rreg_info_used st' = rreg_info_used st"
  by (induction xs arbitrary: st ii) (auto split: sum.splits dest: stage2_insn_used)

lemma stage2_finish_used:
  "stage2_finish ri avail st irs = Inr st' \<Longrightarrow> rreg_info_used st' = rreg_info_used st"
  by (induction irs arbitrary: st) (auto split: if_splits)

lemma stage2_used_zero:
  assumes "stage2 g mem vi instrs avail = Inr st"
  shows "rreg_info_used st = 0"
proof -
  from assms obtain st0 st1 st2 where
    a: "stage2_init mem vi (int (length avail)) = Inr st0"
    and b: "stage2_loop g avail 0 st0 instrs = Inr st1"
    and c: "stage2_finish (u_ri mem) avail st1 [0..<length avail] = Inr st2"
    and d: "st = st2\<lparr>rreg_live_after := [], rreg_dead_before := []\<rparr>"
    by (auto simp: stage2_def split: sum.splits)
  from a have "rreg_info_used st0 = 0"
    by (auto simp: stage2_init_def split: if_splits)
  with stage2_loop_used[OF b] stage2_finish_used[OF c] d show ?thesis by simp
qed


text \<open>
  C2 on a concrete stream: one allocatable register \<open>R0\<close>, written by
  instruction 0 and again by instruction 1. Its hard live ranges are
  \<open>(0, 1)\<close> and \<open>(1, 2)\<close>. Stage 2 ends with \<^verbatim>\<open>rreg_info_used = 0\<close>; the cell
  at index 0 holds the last range stored there and the range \<open>(0, 1)\<close>, flushed
  by the second Write, has been overwritten by the final flush.
\<close>

theorem stage2_overwrites_flushed_ranges:
  "stage2 id zero_filled []
     [[(HReg False HRcInt 0, HRmWrite)], [(HReg False HRcInt 0, HRmWrite)]]
     [HReg False HRcInt 0] =
   Inr \<lparr> vreg_info = [],
         rreg_info =
           [\<lparr> ri_rreg = HReg False HRcInt 0, ri_live_after = 1, ri_dead_before = 2 \<rparr>,
            \<lparr> ri_rreg = INVALID_HREG, ri_live_after = 0, ri_dead_before = 0 \<rparr>,
            \<lparr> ri_rreg = INVALID_HREG, ri_live_after = 0, ri_dead_before = 0 \<rparr>,
            \<lparr> ri_rreg = INVALID_HREG, ri_live_after = 0, ri_dead_before = 0 \<rparr>],
         rreg_info_used = 0, rreg_live_after = [], rreg_dead_before = [], rreg_state = [] \<rparr>"
  by (simp add: stage2_def stage2_init_def zero_filled_def rreg_info_size_def Let_def
        upt_conv_Cons)


text \<open>
  C5 on a concrete stream: two allocatable registers, and a single instruction
  that reads the second one, \<open>R1\<close>, which nothing has written. The
  initialisation loop has stored \<open>- 1\<close> at index \<^verbatim>\<open>i\<close> only, so
  \<^verbatim>\<open>rreg_live_after[1]\<close> holds what \<^verbatim>\<open>malloc\<close> left there; with zeroed memory
  the test for a first event fails to fire, stage 2 accepts the stream, and the
  function runs to its end.
\<close>

theorem stage2_accepts_first_read:
  "stage2 id zero_filled [] [[(HReg False HRcInt 1, HRmRead)]]
     [HReg False HRcInt 0, HReg False HRcInt 1] =
   Inr \<lparr> vreg_info = [],
         rreg_info =
           [\<lparr> ri_rreg = HReg False HRcInt 0, ri_live_after = 0, ri_dead_before = 0 \<rparr>,
            \<lparr> ri_rreg = INVALID_HREG, ri_live_after = 0, ri_dead_before = 0 \<rparr>,
            \<lparr> ri_rreg = INVALID_HREG, ri_live_after = 0, ri_dead_before = 0 \<rparr>,
            \<lparr> ri_rreg = INVALID_HREG, ri_live_after = 0, ri_dead_before = 0 \<rparr>],
         rreg_info_used = 0, rreg_live_after = [], rreg_dead_before = [], rreg_state = [] \<rparr>
   \<and> doRegisterAllocation id 4 zero_filled [[(HReg False HRcInt 1, HRmRead)]] 0
        [HReg False HRcInt 0, HReg False HRcInt 1] = Inr None"
  by (simp add: doRegisterAllocation_def doRegisterAllocation_tables_def stage1_def
        vreg_info_init_def stage2_def stage2_init_def zero_filled_def rreg_info_size_def
        Let_def upt_conv_Cons stage3_def stage5_def rreg_state_init_def stage5_insn_def
        sanity_check1_def sanity_check2_def sanity_check4_def expire_dead_bindings_def)

section \<open>Stage 5 expires dead bindings and nothing else\<close>

lemma expire_loop_Inr:
  "expire_loop n ii vi rs = Inr rs' \<Longrightarrow> rs' = map (expire_entry ii vi) rs"
  by (induction rs arbitrary: rs')
     (auto simp: expire_entry_def Let_def split: if_splits sum.splits)

lemma expire_loop_ok:
  "list_all (bound_vreg_in_range n) rs \<Longrightarrow>
     expire_loop n ii vi rs = Inr (map (expire_entry ii vi) rs)"
  by (induction rs) (auto simp: expire_entry_def bound_vreg_in_range_def Let_def)

lemma expire_loop_fails:
  "\<not> list_all (bound_vreg_in_range n) rs \<Longrightarrow> expire_loop n ii vi rs = Inl AssertBoundVregRange"
  by (induction rs) (auto simp: bound_vreg_in_range_def Let_def split: sum.splits)

text \<open>
  C9. When every \<open>Bound\<close> entry holds a vreg with a number in
  \<^verbatim>\<open>[0, n_vregs)\<close>, so that the assertion of the loop holds, the expiry at
  instruction \<open>ii\<close> succeeds; it leaves \<^verbatim>\<open>vreg_info\<close>, \<^verbatim>\<open>rreg_info\<close> and
  \<^verbatim>\<open>rreg_info_used\<close> as they are and changes nothing but \<^verbatim>\<open>rreg_state\<close>,
  where an entry becomes \<open>Free\<close> with its vreg field cleared exactly when it
  was \<open>Bound\<close> to a vreg whose \<open>dead_before\<close> is \<open>ii\<close>, and is unchanged
  otherwise.
\<close>

theorem expire_dead_bindings_frame:
  assumes "list_all (bound_vreg_in_range n_vregs) (rreg_state st)"
  shows "\<exists>st'. expire_dead_bindings n_vregs ii st = Inr st'
     \<and> vreg_info st' = vreg_info st
     \<and> rreg_info st' = rreg_info st
     \<and> rreg_info_used st' = rreg_info_used st
     \<and> st' = st\<lparr>rreg_state := rreg_state st'\<rparr>
     \<and> length (rreg_state st') = length (rreg_state st)
     \<and> (\<forall>ir<length (rreg_state st).
          rreg_state st' ! ir =
            (if disp (rreg_state st ! ir) = Bound
                \<and> dead_before (vreg_info st ! nat (hregNumber (vreg (rreg_state st ! ir)))) = ii
             then (rreg_state st ! ir)\<lparr>disp := Free, vreg := INVALID_HREG\<rparr>
             else rreg_state st ! ir))"
  using expire_loop_ok[OF assms, of ii "vreg_info st"]
  by (simp add: expire_dead_bindings_def expire_entry_def)

theorem expire_dead_bindings_frame_witness:
  "list_all (bound_vreg_in_range 1)
     [\<lparr> rs_rreg = HReg False HRcInt 0, disp = Bound, vreg = HReg True HRcInt 0 \<rparr>,
      \<lparr> rs_rreg = HReg False HRcInt 1, disp = Free, vreg = INVALID_HREG \<rparr>]
   \<and> (\<exists>st'. expire_dead_bindings 1 2
          \<lparr> vreg_info = [\<lparr> live_after = 0, dead_before = 2, spill_offset = 0, spill_size = 0,
                           has_preference = False, preferred_rreg = INVALID_HREG \<rparr>],
            rreg_info = [], rreg_info_used = 0, rreg_live_after = [], rreg_dead_before = [],
            rreg_state =
              [\<lparr> rs_rreg = HReg False HRcInt 0, disp = Bound, vreg = HReg True HRcInt 0 \<rparr>,
               \<lparr> rs_rreg = HReg False HRcInt 1, disp = Free, vreg = INVALID_HREG \<rparr>] \<rparr> = Inr st'
        \<and> rreg_state st' ! 0 =
            \<lparr> rs_rreg = HReg False HRcInt 0, disp = Free, vreg = INVALID_HREG \<rparr>
        \<and> rreg_state st' ! 1 =
            \<lparr> rs_rreg = HReg False HRcInt 1, disp = Free, vreg = INVALID_HREG \<rparr>
        \<and> vreg_info st' =
            [\<lparr> live_after = 0, dead_before = 2, spill_offset = 0, spill_size = 0,
                has_preference = False, preferred_rreg = INVALID_HREG \<rparr>])"
proof -
  let ?rs = "[\<lparr> rs_rreg = HReg False HRcInt 0, disp = Bound, vreg = HReg True HRcInt 0 \<rparr>,
      \<lparr> rs_rreg = HReg False HRcInt 1, disp = Free, vreg = INVALID_HREG \<rparr>]"
  let ?st = "\<lparr> vreg_info = [\<lparr> live_after = 0, dead_before = 2, spill_offset = 0, spill_size = 0,
                           has_preference = False, preferred_rreg = INVALID_HREG \<rparr>],
            rreg_info = [], rreg_info_used = 0, rreg_live_after = [], rreg_dead_before = [],
            rreg_state = ?rs \<rparr>"
  have h: "list_all (bound_vreg_in_range 1) (rreg_state ?st)"
    by (simp add: bound_vreg_in_range_def)
  from expire_dead_bindings_frame[OF h, of 2] obtain st' where
    a: "expire_dead_bindings 1 2 ?st = Inr st'" and b: "vreg_info st' = vreg_info ?st"
    and c: "\<forall>ir<length (rreg_state ?st).
          rreg_state st' ! ir =
            (if disp (rreg_state ?st ! ir) = Bound
                \<and> dead_before (vreg_info ?st ! nat (hregNumber (vreg (rreg_state ?st ! ir)))) = 2
             then (rreg_state ?st ! ir)\<lparr>disp := Free, vreg := INVALID_HREG\<rparr>
             else rreg_state ?st ! ir)"
    by blast
  from c[rule_format, of 0] c[rule_format, of 1]
  have "rreg_state st' ! 0 = \<lparr> rs_rreg = HReg False HRcInt 0, disp = Free, vreg = INVALID_HREG \<rparr>"
    "rreg_state st' ! 1 = \<lparr> rs_rreg = HReg False HRcInt 1, disp = Free, vreg = INVALID_HREG \<rparr>"
    by simp_all
  with a b h show ?thesis by auto
qed

lemma all_free_expire: "all_free rs \<Longrightarrow> map (expire_entry ii vi) rs = rs"
  by (induction rs) (auto simp: all_free_def expire_entry_def)

lemma all_free_in_range: "all_free rs \<Longrightarrow> list_all (bound_vreg_in_range n) rs"
  by (induction rs) (auto simp: all_free_def bound_vreg_in_range_def)

lemma all_free_sanity3: "all_free rs \<Longrightarrow> sanity_check3 rs"
  by (induction rs) (auto simp: all_free_def)

lemma all_free_sanity2: "all_free (rreg_state st) \<Longrightarrow> sanity_check2 ii st"
  by (auto simp: all_free_def sanity_check2_def list_all_iff)

lemma all_free_sanity4: "all_free (rreg_state st) \<Longrightarrow> sanity_check4 st"
  by (auto simp: all_free_def sanity_check4_def list_all_iff)

lemma no_ranges_sanity1: "rreg_info_used st = 0 \<Longrightarrow> sanity_check1 avail ii st"
  by (simp add: sanity_check1_def)

lemma stage5_insn_all_free:
  assumes "all_free (rreg_state st)" and "rreg_info_used st = 0"
  shows "stage5_insn n avail ii st = Inr st"
proof -
  have "expire_loop n ii (vreg_info st) (rreg_state st) = Inr (rreg_state st)"
    using expire_loop_ok[OF all_free_in_range[OF assms(1)], of n ii "vreg_info st"]
      all_free_expire[OF assms(1)] by simp
  then show ?thesis
    using assms all_free_sanity2 all_free_sanity3 all_free_sanity4 no_ranges_sanity1
    by (simp add: stage5_insn_def expire_dead_bindings_def)
qed

lemma stage5_insn_keeps_all_free:
  assumes "stage5_insn n avail ii st = Inr st'" and "all_free (rreg_state st)"
  shows "st' = st"
proof -
  from assms(1) obtain rs where
    "expire_loop n ii (vreg_info st) (rreg_state st) = Inr rs" and "st' = st\<lparr>rreg_state := rs\<rparr>"
    by (auto simp: stage5_insn_def expire_dead_bindings_def split: if_splits sum.splits)
  with expire_loop_Inr[OF this(1)] all_free_expire[OF assms(2)] show ?thesis by simp
qed

lemma stage5_loop_all_free:
  assumes "all_free (rreg_state st)" and "rreg_info_used st = 0"
  shows "stage5_loop n avail ii st instrs = Inr st"
  using assms
  by (induction instrs arbitrary: ii) (simp_all add: stage5_insn_all_free)

lemma stage5_loop_keeps_all_free:
  assumes "stage5_loop n avail ii st instrs = Inr st'" and "all_free (rreg_state st)"
  shows "st' = st"
  using assms
proof (induction instrs arbitrary: ii)
  case Nil
  then show ?case by simp
next
  case (Cons x xs)
  from Cons.prems(1) obtain st1 where a: "stage5_insn n avail ii st = Inr st1"
    and b: "stage5_loop n avail (ii + 1) st1 xs = Inr st'"
    by (auto split: sum.splits)
  from stage5_insn_keeps_all_free[OF a Cons.prems(2)] have "st1 = st" .
  with Cons.IH b Cons.prems(2) show ?case by simp
qed

lemma stage5_loop_append:
  "stage5_loop n avail ii st (xs @ ys) =
     (case stage5_loop n avail ii st xs of
        Inl e \<Rightarrow> Inl e
      | Inr st' \<Rightarrow> stage5_loop n avail (ii + int (length xs)) st' ys)"
  by (induction xs arbitrary: ii st) (auto split: sum.splits simp: add.assoc)

lemma all_free_init: "all_free (rreg_state_init avail)"
  by (induction avail) (auto simp: all_free_def rreg_state_init_def)

lemma sanity_check3_pairs:
  "sanity_check3 rs \<longleftrightarrow>
     (\<forall>i j. i < j \<and> j < length rs \<and> disp (rs ! i) = Bound \<and> disp (rs ! j) = Bound
        \<longrightarrow> vreg (rs ! i) \<noteq> vreg (rs ! j))"
proof (induction rs)
  case Nil
  then show ?case by simp
next
  case (Cons s ss)
  show ?case
  proof
    assume a: "sanity_check3 (s # ss)"
    show "\<forall>i j. i < j \<and> j < length (s # ss) \<and> disp ((s # ss) ! i) = Bound
            \<and> disp ((s # ss) ! j) = Bound \<longrightarrow> vreg ((s # ss) ! i) \<noteq> vreg ((s # ss) ! j)"
    proof (intro allI impI)
      fix i j
      assume h: "i < j \<and> j < length (s # ss) \<and> disp ((s # ss) ! i) = Bound
            \<and> disp ((s # ss) ! j) = Bound"
      then obtain j' where j: "j = Suc j'" by (cases j) auto
      show "vreg ((s # ss) ! i) \<noteq> vreg ((s # ss) ! j)"
      proof (cases i)
        case 0
        with a h j show ?thesis by (auto simp: list_all_length)
      next
        case (Suc i')
        with a h j Cons.IH show ?thesis by auto
      qed
    qed
  next
    assume b: "\<forall>i j. i < j \<and> j < length (s # ss) \<and> disp ((s # ss) ! i) = Bound
            \<and> disp ((s # ss) ! j) = Bound \<longrightarrow> vreg ((s # ss) ! i) \<noteq> vreg ((s # ss) ! j)"
    have "sanity_check3 ss"
    proof -
      have "\<forall>i j. i < j \<and> j < length ss \<and> disp (ss ! i) = Bound \<and> disp (ss ! j) = Bound
              \<longrightarrow> vreg (ss ! i) \<noteq> vreg (ss ! j)"
      proof (intro allI impI)
        fix i j assume "i < j \<and> j < length ss \<and> disp (ss ! i) = Bound \<and> disp (ss ! j) = Bound"
        with b[rule_format, of "Suc i" "Suc j"] show "vreg (ss ! i) \<noteq> vreg (ss ! j)" by simp
      qed
      with Cons.IH show ?thesis by simp
    qed
    moreover have "disp s = Bound \<longrightarrow> list_all (\<lambda>t. disp t = Bound \<longrightarrow> vreg s \<noteq> vreg t) ss"
    proof
      assume d: "disp s = Bound"
      show "list_all (\<lambda>t. disp t = Bound \<longrightarrow> vreg s \<noteq> vreg t) ss"
        unfolding list_all_length
      proof (intro allI impI)
        fix k assume "k < length ss" "disp (ss ! k) = Bound"
        with b[rule_format, of 0 "Suc k"] d show "vreg s \<noteq> vreg (ss ! k)" by simp
      qed
    qed
    ultimately show "sanity_check3 (s # ss)" by simp
  qed
qed

lemma sanity_check3_injective: "sanity_check3 rs \<longleftrightarrow> bound_injective rs"
proof
  assume "sanity_check3 rs"
  then have p: "\<forall>i j. i < j \<and> j < length rs \<and> disp (rs ! i) = Bound \<and> disp (rs ! j) = Bound
        \<longrightarrow> vreg (rs ! i) \<noteq> vreg (rs ! j)" by (simp add: sanity_check3_pairs)
  show "bound_injective rs"
    unfolding bound_injective_def
  proof (rule inj_onI)
    fix x y
    assume x: "x \<in> {ir. ir < length rs \<and> disp (rs ! ir) = Bound}"
      and y: "y \<in> {ir. ir < length rs \<and> disp (rs ! ir) = Bound}"
      and e: "vreg (rs ! x) = vreg (rs ! y)"
    show "x = y"
    proof (rule ccontr)
      assume "x \<noteq> y"
      then consider "x < y" | "y < x" by linarith
      then show False
      proof cases
        case 1 with p[rule_format, of x y] x y e show False by simp
      next
        case 2 with p[rule_format, of y x] x y e show False by simp
      qed
    qed
  qed
next
  assume b: "bound_injective rs"
  have "\<forall>i j. i < j \<and> j < length rs \<and> disp (rs ! i) = Bound \<and> disp (rs ! j) = Bound
        \<longrightarrow> vreg (rs ! i) \<noteq> vreg (rs ! j)"
  proof (intro allI impI notI)
    fix i j
    assume h: "i < j \<and> j < length rs \<and> disp (rs ! i) = Bound \<and> disp (rs ! j) = Bound"
      and e: "vreg (rs ! i) = vreg (rs ! j)"
    from b have "inj_on (\<lambda>ir. vreg (rs ! ir)) {ir. ir < length rs \<and> disp (rs ! ir) = Bound}"
      by (simp add: bound_injective_def)
    from inj_onD[OF this e] h show False by simp
  qed
  then show "sanity_check3 rs" by (simp add: sanity_check3_pairs)
qed

lemma expire_keeps_injective:
  assumes "bound_injective rs"
  shows "bound_injective (map (expire_entry ii vi) rs)"
  unfolding bound_injective_def
proof (rule inj_onI)
  let ?rs' = "map (expire_entry ii vi) rs"
  fix x y
  assume x: "x \<in> {ir. ir < length ?rs' \<and> disp (?rs' ! ir) = Bound}"
    and y: "y \<in> {ir. ir < length ?rs' \<and> disp (?rs' ! ir) = Bound}"
    and e: "vreg (?rs' ! x) = vreg (?rs' ! y)"
  from x have x': "x < length rs" "disp (rs ! x) = Bound" "?rs' ! x = rs ! x"
    by (auto simp: expire_entry_def split: if_splits)
  from y have y': "y < length rs" "disp (rs ! y) = Bound" "?rs' ! y = rs ! y"
    by (auto simp: expire_entry_def split: if_splits)
  from assms have "inj_on (\<lambda>ir. vreg (rs ! ir)) {ir. ir < length rs \<and> disp (rs ! ir) = Bound}"
    by (simp add: bound_injective_def)
  from inj_onD[OF this, of x y] e x' y' show "x = y" by simp
qed

lemma all_free_injective: "all_free rs \<Longrightarrow> bound_injective rs"
  by (auto simp: all_free_def bound_injective_def list_all_length inj_on_def)


lemma stage5_split:
  "stage5 n avail st instrs =
     (case stage5 n avail st (take k instrs) of
        Inl e \<Rightarrow> Inl e
      | Inr st1 \<Rightarrow> stage5_loop n avail (int (length (take k instrs))) st1 (drop k instrs))"
proof -
  let ?st0 = "st\<lparr>rreg_state := rreg_state_init avail\<rparr>"
  have "stage5_loop n avail 0 ?st0 (take k instrs @ drop k instrs) =
     (case stage5_loop n avail 0 ?st0 (take k instrs) of
        Inl e \<Rightarrow> Inl e
      | Inr st1 \<Rightarrow> stage5_loop n avail (0 + int (length (take k instrs))) st1 (drop k instrs))"
    by (rule stage5_loop_append)
  then show ?thesis by (simp add: stage5_def split: sum.splits)
qed

text \<open>
  The loop as it is written: whenever it reaches a boundary, the map from the
  \<open>Bound\<close> entries to their vregs is injective, since no entry is \<open>Bound\<close>;
  and around any iteration that is not stopped, from any state, sanity check 3
  asserts it before the expiry and the expiry keeps it.
\<close>

lemma stage5_as_written_bindings:
  "(stage5 n_vregs available_real_regs st (take k instrs) = Inr st' \<longrightarrow>
      bound_injective (rreg_state st'))
   \<and> (stage5_insn n_vregs available_real_regs ii s = Inr s' \<longrightarrow>
        bound_injective (rreg_state s) \<and> bound_injective (rreg_state s'))
   \<and> stage5 n_vregs available_real_regs st instrs =
       (case stage5 n_vregs available_real_regs st (take k instrs) of
          Inl e \<Rightarrow> Inl e
        | Inr st1 \<Rightarrow>
            stage5_loop n_vregs available_real_regs (int (length (take k instrs))) st1
              (drop k instrs))"
proof (intro conjI impI)
  let ?st0 = "st\<lparr>rreg_state := rreg_state_init available_real_regs\<rparr>"
  assume "stage5 n_vregs available_real_regs st (take k instrs) = Inr st'"
  then have "stage5_loop n_vregs available_real_regs 0 ?st0 (take k instrs) = Inr st'"
    by (simp add: stage5_def)
  from stage5_loop_keeps_all_free[OF this] all_free_init have "st' = ?st0" by simp
  then show "bound_injective (rreg_state st')"
    using all_free_injective[OF all_free_init] by simp
next
  assume a: "stage5_insn n_vregs available_real_regs ii s = Inr s'"
  then have c3: "sanity_check3 (rreg_state s)"
    by (auto simp: stage5_insn_def split: if_splits)
  then show "bound_injective (rreg_state s)" by (simp add: sanity_check3_injective)
  from a obtain rs where "expire_loop n_vregs ii (vreg_info s) (rreg_state s) = Inr rs"
    and "s' = s\<lparr>rreg_state := rs\<rparr>"
    by (auto simp: stage5_insn_def expire_dead_bindings_def split: if_splits sum.splits)
  with expire_loop_Inr[OF this(1)] have "rreg_state s' = map (expire_entry ii (vreg_info s)) (rreg_state s)"
    by simp
  with expire_keeps_injective[of "rreg_state s"] c3
  show "bound_injective (rreg_state s')" by (simp add: sanity_check3_injective)
next
  show "stage5 n_vregs available_real_regs st instrs =
       (case stage5 n_vregs available_real_regs st (take k instrs) of
          Inl e \<Rightarrow> Inl e
        | Inr st1 \<Rightarrow>
            stage5_loop n_vregs available_real_regs (int (length (take k instrs))) st1
              (drop k instrs))"
    by (rule stage5_split)
qed

text \<open>
  C10. For the tables that stage 2 hands over, stage 5 reaches every boundary
  \<open>k\<close>, and there \<^verbatim>\<open>rreg_state\<close> is as initialised: one entry for each of the
  \<^verbatim>\<open>n_available_real_regs\<close> registers, all of them \<open>Free\<close>, none \<open>Unavail\<close>
  or \<open>Bound\<close>. With \<^verbatim>\<open>rreg_info_used = 0\<close> and no entry \<open>Unavail\<close> or
  \<open>Bound\<close> the four sanity checks hold, at any instruction index. The expiry,
  the only statement of the loop that writes \<^verbatim>\<open>rreg_state\<close>, leaves the
  disposition of an entry as it is or takes it from \<open>Bound\<close> to \<open>Free\<close>.
\<close>

theorem stage5_every_rreg_free:
  assumes "stage2 getRegUsage mem vi instrs available_real_regs = Inr st2"
  shows "(\<exists>st'. stage5 n_vregs available_real_regs (st2\<lparr>vreg_info := vi3\<rparr>) (take k instrs) = Inr st'
           \<and> rreg_state st' = rreg_state_init available_real_regs
           \<and> length (rreg_state st') = length available_real_regs
           \<and> list_all (\<lambda>s. disp s = Free) (rreg_state st')
           \<and> list_all (\<lambda>s. disp s \<noteq> Unavail \<and> disp s \<noteq> Bound) (rreg_state st')
           \<and> rreg_info_used st' = 0
           \<and> sanity_check1 available_real_regs ii st' \<and> sanity_check2 ii st'
           \<and> sanity_check3 (rreg_state st') \<and> sanity_check4 st')
       \<and> (\<forall>s s'. expire_dead_bindings n_vregs ii s = Inr s' \<longrightarrow>
            length (rreg_state s') = length (rreg_state s)
            \<and> (\<forall>ir<length (rreg_state s).
                  disp (rreg_state s' ! ir) = disp (rreg_state s ! ir)
                  \<or> disp (rreg_state s ! ir) = Bound \<and> disp (rreg_state s' ! ir) = Free))
       \<and> stage5 n_vregs available_real_regs (st2\<lparr>vreg_info := vi3\<rparr>) instrs =
           (case stage5 n_vregs available_real_regs (st2\<lparr>vreg_info := vi3\<rparr>) (take k instrs) of
              Inl e \<Rightarrow> Inl e
            | Inr st1 \<Rightarrow>
                stage5_loop n_vregs available_real_regs (int (length (take k instrs))) st1
                  (drop k instrs))"
proof (intro conjI)
  let ?st0 = "st2\<lparr>vreg_info := vi3, rreg_state := rreg_state_init available_real_regs\<rparr>"
  have u: "rreg_info_used ?st0 = 0" using stage2_used_zero[OF assms] by simp
  have f: "all_free (rreg_state ?st0)" using all_free_init by simp
  have run: "stage5 n_vregs available_real_regs (st2\<lparr>vreg_info := vi3\<rparr>) (take k instrs) = Inr ?st0"
    using stage5_loop_all_free[OF f u] by (simp add: stage5_def)
  have nf: "list_all (\<lambda>s. disp s \<noteq> Unavail \<and> disp s \<noteq> Bound) (rreg_state ?st0)"
    using f by (auto simp: all_free_def list_all_iff)
  show "\<exists>st'. stage5 n_vregs available_real_regs (st2\<lparr>vreg_info := vi3\<rparr>) (take k instrs) = Inr st'
           \<and> rreg_state st' = rreg_state_init available_real_regs
           \<and> length (rreg_state st') = length available_real_regs
           \<and> list_all (\<lambda>s. disp s = Free) (rreg_state st')
           \<and> list_all (\<lambda>s. disp s \<noteq> Unavail \<and> disp s \<noteq> Bound) (rreg_state st')
           \<and> rreg_info_used st' = 0
           \<and> sanity_check1 available_real_regs ii st' \<and> sanity_check2 ii st'
           \<and> sanity_check3 (rreg_state st') \<and> sanity_check4 st'"
  proof (intro exI conjI)
    show "stage5 n_vregs available_real_regs (st2\<lparr>vreg_info := vi3\<rparr>) (take k instrs) = Inr ?st0"
      by (rule run)
    show "rreg_state ?st0 = rreg_state_init available_real_regs" by simp
    show "length (rreg_state ?st0) = length available_real_regs"
      by (simp add: rreg_state_init_def)
    show "list_all (\<lambda>s. disp s = Free) (rreg_state ?st0)" using f by (simp add: all_free_def)
    show "list_all (\<lambda>s. disp s \<noteq> Unavail \<and> disp s \<noteq> Bound) (rreg_state ?st0)" by (rule nf)
    show "rreg_info_used ?st0 = 0" by (rule u)
    show "sanity_check1 available_real_regs ii ?st0" by (rule no_ranges_sanity1[OF u])
    show "sanity_check2 ii ?st0" by (rule all_free_sanity2[OF f])
    show "sanity_check3 (rreg_state ?st0)" by (rule all_free_sanity3[OF f])
    show "sanity_check4 ?st0" by (rule all_free_sanity4[OF f])
  qed
next
  show "\<forall>s s'. expire_dead_bindings n_vregs ii s = Inr s' \<longrightarrow>
            length (rreg_state s') = length (rreg_state s)
            \<and> (\<forall>ir<length (rreg_state s).
                  disp (rreg_state s' ! ir) = disp (rreg_state s ! ir)
                  \<or> disp (rreg_state s ! ir) = Bound \<and> disp (rreg_state s' ! ir) = Free)"
  proof (intro allI impI)
    fix s s'
    assume "expire_dead_bindings n_vregs ii s = Inr s'"
    then obtain rs where "expire_loop n_vregs ii (vreg_info s) (rreg_state s) = Inr rs"
      and "s' = s\<lparr>rreg_state := rs\<rparr>"
      by (auto simp: expire_dead_bindings_def split: sum.splits)
    with expire_loop_Inr[OF this(1)]
    have "rreg_state s' = map (expire_entry ii (vreg_info s)) (rreg_state s)" by simp
    then show "length (rreg_state s') = length (rreg_state s)
            \<and> (\<forall>ir<length (rreg_state s).
                  disp (rreg_state s' ! ir) = disp (rreg_state s ! ir)
                  \<or> disp (rreg_state s ! ir) = Bound \<and> disp (rreg_state s' ! ir) = Free)"
      by (simp add: expire_entry_def)
  qed
next
  show "stage5 n_vregs available_real_regs (st2\<lparr>vreg_info := vi3\<rparr>) instrs =
           (case stage5 n_vregs available_real_regs (st2\<lparr>vreg_info := vi3\<rparr>) (take k instrs) of
              Inl e \<Rightarrow> Inl e
            | Inr st1 \<Rightarrow>
                stage5_loop n_vregs available_real_regs (int (length (take k instrs))) st1
                  (drop k instrs))"
    by (rule stage5_split)
qed


theorem stage5_every_rreg_free_witness:
  "stage2 id zero_filled [] [[(HReg False HRcInt 0, HRmWrite)]] [HReg False HRcInt 0] =
     Inr \<lparr> vreg_info = [],
           rreg_info =
             [\<lparr> ri_rreg = HReg False HRcInt 0, ri_live_after = 0, ri_dead_before = 1 \<rparr>,
              \<lparr> ri_rreg = INVALID_HREG, ri_live_after = 0, ri_dead_before = 0 \<rparr>,
              \<lparr> ri_rreg = INVALID_HREG, ri_live_after = 0, ri_dead_before = 0 \<rparr>,
              \<lparr> ri_rreg = INVALID_HREG, ri_live_after = 0, ri_dead_before = 0 \<rparr>],
           rreg_info_used = 0, rreg_live_after = [], rreg_dead_before = [], rreg_state = [] \<rparr>
   \<and> (\<exists>st'. stage5 0 [HReg False HRcInt 0]
          \<lparr> vreg_info = [],
            rreg_info =
              [\<lparr> ri_rreg = HReg False HRcInt 0, ri_live_after = 0, ri_dead_before = 1 \<rparr>,
               \<lparr> ri_rreg = INVALID_HREG, ri_live_after = 0, ri_dead_before = 0 \<rparr>,
               \<lparr> ri_rreg = INVALID_HREG, ri_live_after = 0, ri_dead_before = 0 \<rparr>,
               \<lparr> ri_rreg = INVALID_HREG, ri_live_after = 0, ri_dead_before = 0 \<rparr>],
            rreg_info_used = 0, rreg_live_after = [], rreg_dead_before = [], rreg_state = [] \<rparr>
          (take 1 [[(HReg False HRcInt 0, HRmWrite)]]) = Inr st'
        \<and> rreg_state st' =
            [\<lparr> rs_rreg = HReg False HRcInt 0, disp = Free, vreg = INVALID_HREG \<rparr>]
        \<and> sanity_check1 [HReg False HRcInt 0] 1 st')"
proof -
  let ?X = "\<lparr> vreg_info = [],
           rreg_info =
             [\<lparr> ri_rreg = HReg False HRcInt 0, ri_live_after = 0, ri_dead_before = 1 \<rparr>,
              \<lparr> ri_rreg = INVALID_HREG, ri_live_after = 0, ri_dead_before = 0 \<rparr>,
              \<lparr> ri_rreg = INVALID_HREG, ri_live_after = 0, ri_dead_before = 0 \<rparr>,
              \<lparr> ri_rreg = INVALID_HREG, ri_live_after = 0, ri_dead_before = 0 \<rparr>],
           rreg_info_used = 0, rreg_live_after = [], rreg_dead_before = [], rreg_state = [] \<rparr>"
  have a: "stage2 id zero_filled [] [[(HReg False HRcInt 0, HRmWrite)]] [HReg False HRcInt 0] = Inr ?X"
    by (simp add: stage2_def stage2_init_def zero_filled_def rreg_info_size_def Let_def
          upt_conv_Cons)
  from stage5_every_rreg_free[OF a, THEN conjunct1, of 0 "[]" 1 1] obtain st' where
    "stage5 0 [HReg False HRcInt 0] (?X\<lparr>vreg_info := []\<rparr>)
        (take 1 [[(HReg False HRcInt 0, HRmWrite)]]) = Inr st'"
    "rreg_state st' = rreg_state_init [HReg False HRcInt 0]"
    "sanity_check1 [HReg False HRcInt 0] 1 st'"
    by blast
  with a show ?thesis by (auto simp: rreg_state_init_def)
qed

section \<open>The allocation pass keeps every vreg in at most one rreg\<close>



















section \<open>The function returns no instructions\<close>

lemma doRegisterAllocation_never_returns_a_list:
  "doRegisterAllocation getRegUsage N_SPILL64S mem instrs n_vregs available_real_regs
     \<noteq> Inr (Some out)"
  by (simp add: doRegisterAllocation_def split: sum.splits)


text \<open>
  C1 on a concrete input: no vregs, one allocatable register \<open>R0\<close>, and one
  instruction that writes \<open>R0\<close>. No stage stops the function, and it ends
  without a list of instructions, where the claim has the list of the one input
  instruction.
\<close>

theorem doRegisterAllocation_no_vregs_no_output:
  "doRegisterAllocation id 4 zero_filled [[(HReg False HRcInt 0, HRmWrite)]] 0
     [HReg False HRcInt 0] = Inr None"
  by (simp add: doRegisterAllocation_def doRegisterAllocation_tables_def stage1_def
        vreg_info_init_def stage2_def stage2_init_def zero_filled_def rreg_info_size_def
        Let_def upt_conv_Cons stage3_def stage5_def rreg_state_init_def stage5_insn_def
        sanity_check1_def sanity_check2_def sanity_check4_def expire_dead_bindings_def)

end
